theory Spec2Isabelle
  imports Complex_Main "HOL-Library.Multiset"
begin

section \<open>Values and exceptions\<close>

text \<open>
  The records handled by \<^verbatim>\<open>dna/data.py\<close> are what \<^verbatim>\<open>json.load\<close> returns: nested
  dictionaries, lists, strings and numbers. A dictionary is an association list read
  with \<open>map_of\<close>. A finite float is represented by its exact rational value, which is
  what Python compares when a float meets an int; NaN and the infinities are not
  represented.
\<close>

datatype json =
    JNull
  | JBool bool
  | JInt int
  | JFloat rat
  | JStr string
  | JArr "json list"
  | JObj "(string \<times> json) list"

text \<open>The Python exceptions that the modelled code can raise.\<close>

datatype exc =
    KeyError
  | TypeError
  | IndexError
  | ValueError
  | StopIteration
  | RuntimeError
  | UnboundLocalError
  | RecursionError

text \<open>
  An element of a step's \<^verbatim>\<open>inputs\<close> list: an integer index into the step list of the
  pipeline, or a string such as \<^verbatim>\<open>"inputs.0"\<close>.
\<close>

datatype ref = RefInt int | RefStr string

section \<open>The structural key encoder (\<^verbatim>\<open>encode_dag\<close>)\<close>

text \<open>\<^verbatim>\<open>str\<close> on an int: the decimal digits, with a minus sign for a negative number.\<close>

definition digit_char :: "nat \<Rightarrow> char" where
  "digit_char d = ''0123456789'' ! d"

fun str_nat :: "nat \<Rightarrow> string" where
  "str_nat n = (if n < 10 then [digit_char n] else str_nat (n div 10) @ [digit_char (n mod 10)])"

declare str_nat.simps [simp del]

definition str_int :: "int \<Rightarrow> string" where
  "str_int i = (if i < 0 then CHR ''-'' # str_nat (nat (- i)) else str_nat (nat i))"

fun str_ref :: "ref \<Rightarrow> string" where
  "str_ref (RefInt i) = str_int i"
| "str_ref (RefStr s) = s"

text \<open>
  \<^verbatim>\<open>return ''.join(''.join(str(edge) for edge in vertex) for vertex in dag)\<close>:
  joining with the empty separator is concatenation.
\<close>

definition encode_dag :: "ref list list \<Rightarrow> string" where
  "encode_dag dag = concat (map (\<lambda>vertex. concat (map str_ref vertex)) dag)"

section \<open>The grouping index (\<^verbatim>\<open>group_json_objects\<close>)\<close>

text \<open>
  \<^verbatim>\<open>group_key.split('.')\<close>: the pieces between the dots; the empty string gives one empty
  piece.
\<close>

fun split_on :: "char \<Rightarrow> string \<Rightarrow> string list" where
  "split_on c [] = [[]]"
| "split_on c (x # xs) =
     (if x = c then [] # split_on c xs
      else (case split_on c xs of [] \<Rightarrow> [[x]] | w # ws \<Rightarrow> (x # w) # ws))"

text \<open>
  \<^verbatim>\<open>group[key_part]\<close> with a string key: a dictionary without the key raises KeyError,
  every other value raises TypeError.
\<close>

fun subscript :: "json \<Rightarrow> string \<Rightarrow> exc + json" where
  "subscript (JObj kvs) k = (case map_of kvs k of None \<Rightarrow> Inl KeyError | Some v \<Rightarrow> Inr v)"
| "subscript _ k = Inl TypeError"

text \<open>
  The inner loop \<^verbatim>\<open>for key_part in group_key.split('.'): group = group[key_part]\<close>.
\<close>

fun get_group :: "json \<Rightarrow> string list \<Rightarrow> exc + json" where
  "get_group grp [] = Inr grp"
| "get_group grp (key_part # rest) =
     (case subscript grp key_part of Inl e \<Rightarrow> Inl e | Inr g \<Rightarrow> get_group g rest)"

text \<open>
  The result is a Python dictionary keyed by the group values. Python finds a key by hash
  and equality: \<^verbatim>\<open>True\<close>, \<^verbatim>\<open>1\<close> and \<^verbatim>\<open>1.0\<close> are one key, lists and dictionaries
  are unhashable (TypeError). \<open>hash_key\<close> gives the class of equal keys of a value,
  \<open>None\<close> for an unhashable one. A dictionary is an association list in insertion order
  (the order Python iterates it in); an entry keeps the key object it was created with.
\<close>

datatype hkey = HNone | HNum rat | HStr string

fun hash_key :: "json \<Rightarrow> hkey option" where
  "hash_key JNull = Some HNone"
| "hash_key (JBool b) = Some (HNum (if b then 1 else 0))"
| "hash_key (JInt i) = Some (HNum (of_int i))"
| "hash_key (JFloat q) = Some (HNum q)"
| "hash_key (JStr s) = Some (HStr s)"
| "hash_key (JArr xs) = None"
| "hash_key (JObj kvs) = None"

type_synonym 'v pydict = "(json \<times> 'v) list"

fun dict_get :: "'v pydict \<Rightarrow> json \<Rightarrow> 'v option" where
  "dict_get [] g = None"
| "dict_get ((k, v) # d) g = (if hash_key k = hash_key g then Some v else dict_get d g)"

fun dict_apply :: "'v pydict \<Rightarrow> json \<Rightarrow> ('v \<Rightarrow> 'v) \<Rightarrow> 'v pydict" where
  "dict_apply [] g f = []"
| "dict_apply ((k, v) # d) g f =
     (if hash_key k = hash_key g then (k, f v) # d else (k, v) # dict_apply d g f)"

text \<open>
  The two statements
  \<^verbatim>\<open>if not group in grouped_objects: grouped_objects[group] = []\<close> and
  \<^verbatim>\<open>grouped_objects[group].append(i)\<close>.
\<close>

definition add_index :: "nat list pydict \<Rightarrow> json \<Rightarrow> nat \<Rightarrow> nat list pydict" where
  "add_index grouped_objects grp i =
     (let d = (case dict_get grouped_objects grp of
                 None \<Rightarrow> grouped_objects @ [(grp, [])]
               | Some _ \<Rightarrow> grouped_objects)
      in dict_apply d grp (\<lambda>l. l @ [i]))"

text \<open>
  The loop \<^verbatim>\<open>for i, obj in enumerate(json_objects)\<close>. It stops at the first record whose
  key path cannot be followed or whose group value is unhashable.
\<close>

fun group_loop :: "string list \<Rightarrow> (nat \<times> json) list \<Rightarrow> nat list pydict \<Rightarrow> exc + nat list pydict" where
  "group_loop ks [] grouped_objects = Inr grouped_objects"
| "group_loop ks ((i, obj) # rest) grouped_objects =
     (case get_group obj ks of
        Inl e \<Rightarrow> Inl e
      | Inr grp \<Rightarrow>
          (case hash_key grp of
             None \<Rightarrow> Inl TypeError
           | Some _ \<Rightarrow> group_loop ks rest (add_index grouped_objects grp i)))"

definition group_json_objects :: "json list \<Rightarrow> string \<Rightarrow> exc + nat list pydict" where
  "group_json_objects json_objects group_key =
     group_loop (split_on CHR ''.'' group_key) (enumerate 0 json_objects) []"



definition in_group :: "string list \<Rightarrow> json \<Rightarrow> json \<Rightarrow> bool" where
  "in_group ks obj g = (case get_group obj ks of Inl e \<Rightarrow> False | Inr v \<Rightarrow> hash_key v = hash_key g)"


definition keys_distinct :: "'v pydict \<Rightarrow> bool" where
  "keys_distinct d = distinct (map (\<lambda>kv. hash_key (fst kv)) d)"

section \<open>Random streams and the per-group sampler\<close>

text \<open>
  \<^verbatim>\<open>random.Random\<close> is the generator of Python's standard library. The code creates
  one instance per object, seeds it with an int and calls \<^verbatim>\<open>shuffle\<close> and
  \<^verbatim>\<open>randint\<close> on it. Here the generator is a parameter: \<open>'g\<close> is the type of its
  states, \<open>rng_seed\<close> is the state after \<^verbatim>\<open>seed(s)\<close> and \<open>rng_below g n\<close> is the
  library's \<^verbatim>\<open>_randbelow(n)\<close>: a number below \<open>n\<close> and the next state. Every theorem
  below holds for every such generator.
\<close>

record 'g rng =
  rng_seed :: "int \<Rightarrow> 'g"
  rng_below :: "'g \<Rightarrow> int \<Rightarrow> int \<times> 'g"

text \<open>
  The library's \<^verbatim>\<open>shuffle\<close>:
  \<^verbatim>\<open>for i in reversed(range(1, len(x))): j = randbelow(i + 1); x[i], x[j] = x[j], x[i]\<close>.
  The library's draw is at most \<open>i\<close>; the \<open>mod\<close> keeps the model inside the list
  for every parameter.
\<close>

fun shuffle_loop :: "'g rng \<Rightarrow> nat \<Rightarrow> 'a list \<Rightarrow> 'g \<Rightarrow> 'a list \<times> 'g" where
  "shuffle_loop R 0 x g = (x, g)"
| "shuffle_loop R (Suc k) x g =
     (let i = Suc k;
          (r, g') = rng_below R g (int i + 1);
          j = nat (r mod (int i + 1))
      in shuffle_loop R k (x[i := x ! j, j := x ! i]) g')"

definition py_shuffle :: "'g rng \<Rightarrow> 'a list \<Rightarrow> 'g \<Rightarrow> 'a list \<times> 'g" where
  "py_shuffle R x g = shuffle_loop R (length x - 1) x g"

text \<open>\<^verbatim>\<open>self._random.randint(0, 2**32 - 1)\<close>: a draw below \<open>2\<^sup>3\<^sup>2\<close>.\<close>

definition randint32 :: "'g rng \<Rightarrow> 'g \<Rightarrow> int \<times> 'g" where
  "randint32 R g = (let (r, g') = rng_below R g (2 ^ 32) in (r mod 2 ^ 32, g'))"

text \<open>
  \<^verbatim>\<open>class RandomSampler\<close>. The constructor stores \<open>n\<close>, the list \<^verbatim>\<open>list(range(n))\<close>
  and a generator of its own, seeded with \<open>seed\<close>. \<^verbatim>\<open>__iter__\<close> shuffles the stored list
  in place with the stored generator and returns an iterator over it: the model returns
  the list as it stands after the shuffle, and the sampler with the list and the
  generator state it now holds.
\<close>

record 'g RandomSampler =
  sampler_n :: nat
  sampler_indices :: "nat list"
  sampler_random :: 'g

definition RandomSampler_init :: "'g rng \<Rightarrow> nat \<Rightarrow> int \<Rightarrow> 'g RandomSampler" where
  "RandomSampler_init R n seed =
     \<lparr>sampler_n = n, sampler_indices = [0..<n], sampler_random = rng_seed R seed\<rparr>"

definition RandomSampler_iter :: "'g rng \<Rightarrow> 'g RandomSampler \<Rightarrow> nat list \<times> 'g RandomSampler" where
  "RandomSampler_iter R s =
     (let (x, g) = py_shuffle R (sampler_indices s) (sampler_random s)
      in (x, s\<lparr>sampler_indices := x, sampler_random := g\<rparr>))"

definition RandomSampler_len :: "'g RandomSampler \<Rightarrow> nat" where
  "RandomSampler_len s = sampler_n s"

text \<open>The permutations that a sampler returns on \<open>k\<close> successive iteration requests.\<close>

fun sampler_passes :: "'g rng \<Rightarrow> nat \<Rightarrow> 'g RandomSampler \<Rightarrow> nat list list" where
  "sampler_passes R 0 s = []"
| "sampler_passes R (Suc k) s =
     (let (x, s') = RandomSampler_iter R s in x # sampler_passes R k s')"

section \<open>The grouped batch loader (\<^verbatim>\<open>GroupDataLoader\<close>, \<^verbatim>\<open>RNNDataLoader\<close>)\<close>

subsection \<open>The batch source of one group\<close>

text \<open>
  \<^verbatim>\<open>torch.utils.data.DataLoader\<close> is library code. What the loader uses of it is
  modelled here. A \<open>DataLoader\<close> holds the dataset (the records of one group), the
  sampler (\<open>None\<close> stands for the sequential sampler that torch uses when no sampler
  is given), the batch size and the drop-last flag. Its constructor refuses a batch size
  that is not positive with a ValueError.
\<close>

record 'g DataLoader =
  dataset :: "json list"
  sampler :: "'g RandomSampler option"
  dl_batch_size :: nat
  dl_drop_last :: bool

text \<open>
  The batch sampler of torch: indices are appended to the current batch, a batch that
  reaches the batch size is yielded, and the batch left at the end is yielded unless it
  is empty or drop-last is set.
\<close>

fun batch_loop :: "nat \<Rightarrow> bool \<Rightarrow> nat list \<Rightarrow> nat list \<Rightarrow> nat list list" where
  "batch_loop bs dropl batch [] = (if batch \<noteq> [] \<and> \<not> dropl then [batch] else [])"
| "batch_loop bs dropl batch (idx # rest) =
     (let batch' = batch @ [idx]
      in if length batch' = bs then batch' # batch_loop bs dropl [] rest
         else batch_loop bs dropl batch' rest)"

text \<open>\<^verbatim>\<open>len(dataloader)\<close>, as torch computes it from the drop-last flag.\<close>

definition DataLoader_len :: "'g DataLoader \<Rightarrow> nat" where
  "DataLoader_len dl =
     (let n = length (dataset dl); bs = dl_batch_size dl
      in if dl_drop_last dl then n div bs else (n + bs - 1) div bs)"

text \<open>
  \<^verbatim>\<open>iter(dataloader)\<close> followed by the first \<^verbatim>\<open>next\<close>: the sampler is asked for a new
  iteration (which reshuffles a \<open>RandomSampler\<close>) and its indices are cut into batches.
  The result is the list of index batches of this pass and the loader with the sampler
  as it now stands.
\<close>

definition DataLoader_iter :: "'g rng \<Rightarrow> 'g DataLoader \<Rightarrow> nat list list \<times> 'g DataLoader" where
  "DataLoader_iter R dl =
     (case sampler dl of
        None \<Rightarrow> (batch_loop (dl_batch_size dl) (dl_drop_last dl) [] [0..<length (dataset dl)], dl)
      | Some s \<Rightarrow>
          (let (x, s') = RandomSampler_iter R s
           in (batch_loop (dl_batch_size dl) (dl_drop_last dl) [] x, dl\<lparr>sampler := Some s'\<rparr>)))"

text \<open>The index batches of \<open>k\<close> successive passes over one group's batch source.\<close>

fun DataLoader_passes :: "'g rng \<Rightarrow> nat \<Rightarrow> 'g DataLoader \<Rightarrow> nat list list list" where
  "DataLoader_passes R 0 dl = []"
| "DataLoader_passes R (Suc k) dl =
     (let (bs, dl') = DataLoader_iter R dl in bs # DataLoader_passes R k dl')"

subsection \<open>Construction\<close>

record 'g GroupDataLoader =
  data :: "json list"
  group_key :: string
  batch_size :: int
  drop_last :: bool
  shuffle :: bool
  seed :: int
  loader_random :: 'g
  group_dataloaders :: "'g DataLoader pydict"
  group_batches :: "json list"

text \<open>
  \<^verbatim>\<open>_get_data_loader\<close>: with shuffling, a \<open>RandomSampler\<close> seeded with a draw from the
  loader's own generator; then torch's constructor, which raises on a batch size that is
  not positive.
\<close>

definition get_data_loader ::
  "'g rng \<Rightarrow> int \<Rightarrow> bool \<Rightarrow> bool \<Rightarrow> 'g \<Rightarrow> json list \<Rightarrow> exc + ('g DataLoader \<times> 'g)" where
  "get_data_loader R bsize dropl shuf g group_data =
     (let (smp, g') =
            (if shuf then (let (sd, g1) = randint32 R g
                           in (Some (RandomSampler_init R (length group_data) sd), g1))
             else (None, g))
      in if bsize \<le> 0 then Inl ValueError
         else Inr (\<lparr>dataset = group_data, sampler = smp,
                    dl_batch_size = nat bsize, dl_drop_last = dropl\<rparr>, g'))"

text \<open>
  The loop of \<^verbatim>\<open>_init_dataloaders\<close> over the groups, in the dictionary's order:
  \<^verbatim>\<open>group_data = [self.data[i] for i in group_indices]\<close>, then the batch source.
\<close>

fun init_dataloaders ::
  "'g rng \<Rightarrow> json list \<Rightarrow> int \<Rightarrow> bool \<Rightarrow> bool \<Rightarrow> nat list pydict \<Rightarrow> 'g \<Rightarrow>
   exc + ('g DataLoader pydict \<times> 'g)" where
  "init_dataloaders R dat bsize dropl shuf [] g = Inr ([], g)"
| "init_dataloaders R dat bsize dropl shuf ((grp, group_indices) # rest) g =
     (case get_data_loader R bsize dropl shuf g (map (\<lambda>i. dat ! i) group_indices) of
        Inl e \<Rightarrow> Inl e
      | Inr (new_dataloader, g') \<Rightarrow>
          (case init_dataloaders R dat bsize dropl shuf rest g' of
             Inl e \<Rightarrow> Inl e
           | Inr (dls, g'') \<Rightarrow> Inr ((grp, new_dataloader) # dls, g'')))"

text \<open>
  \<^verbatim>\<open>_init_group_metadataloader\<close> before the shuffle: every group label, once per batch
  of the group.
\<close>

definition schedule_of :: "'g DataLoader pydict \<Rightarrow> json list" where
  "schedule_of dls = concat (map (\<lambda>(grp, dl). replicate (DataLoader_len dl) grp) dls)"

text \<open>
  \<^verbatim>\<open>GroupDataLoader.__init__\<close>: seed the loader's generator, group the data, build the
  batch sources, build the schedule of group labels and shuffle it with the loader's
  generator. The dataset class and its parameters enter only when a batch is fetched
  (see \<open>iter_loop\<close>).
\<close>

definition GroupDataLoader_init ::
  "'g rng \<Rightarrow> json list \<Rightarrow> string \<Rightarrow> int \<Rightarrow> bool \<Rightarrow> bool \<Rightarrow> int \<Rightarrow> exc + 'g GroupDataLoader" where
  "GroupDataLoader_init R dat gkey bsize dropl shuf sd =
     (case group_json_objects dat gkey of
        Inl e \<Rightarrow> Inl e
      | Inr grouped_data \<Rightarrow>
          (case init_dataloaders R dat bsize dropl shuf grouped_data (rng_seed R sd) of
             Inl e \<Rightarrow> Inl e
           | Inr (dls, g) \<Rightarrow>
               (let (sched, g') = py_shuffle R (schedule_of dls) g
                in Inr \<lparr>data = dat, group_key = gkey, batch_size = bsize, drop_last = dropl,
                        shuffle = shuf, seed = sd, loader_random = g',
                        group_dataloaders = dls, group_batches = sched\<rparr>)))"

text \<open>\<^verbatim>\<open>__len__\<close>: the length of the stored schedule.\<close>

definition GroupDataLoader_len :: "'g GroupDataLoader \<Rightarrow> nat" where
  "GroupDataLoader_len self = length (group_batches self)"

subsection \<open>Iteration\<close>

text \<open>
  \<^verbatim>\<open>d[k] = v\<close> on a key that the dictionary already has.
\<close>

definition dict_set :: "'v pydict \<Rightarrow> json \<Rightarrow> 'v \<Rightarrow> 'v pydict" where
  "dict_set d k v = dict_apply d k (\<lambda>_. v)"

text \<open>
  The body of the generator \<^verbatim>\<open>_iter\<close>, which \<^verbatim>\<open>GroupDataLoader\<close> and
  \<^verbatim>\<open>RNNDataLoader\<close> share up to what they yield. \<open>its\<close> is the dictionary
  \<^verbatim>\<open>group_dataloader_iters\<close>: for every group met in this pass, the index batches its
  iterator has not produced yet. \<open>emit\<close> fetches one batch (from the group label, the
  records of the group's dataset and the indices of the batch) and builds the value to
  yield, or returns the exception raised on the way. The result is the list of values
  yielded, the exception that ends the generator body and the batch sources with their
  samplers as the pass leaves them. The body never returns normally: after the loop it
  executes \<^verbatim>\<open>raise StopIteration()\<close>.
\<close>

fun iter_loop ::
  "'g rng \<Rightarrow> (json \<Rightarrow> json list \<Rightarrow> nat list \<Rightarrow> exc + 'y) \<Rightarrow> json list \<Rightarrow>
   'g DataLoader pydict \<Rightarrow> nat list list pydict \<Rightarrow> 'y list \<times> exc \<times> 'g DataLoader pydict" where
  "iter_loop R emit [] dls its = ([], StopIteration, dls)"
| "iter_loop R emit (grp # rest) dls its =
     (case dict_get dls grp of
        None \<Rightarrow> ([], KeyError, dls)
      | Some dl \<Rightarrow>
          (let (its1, dls1) =
                 (case dict_get its grp of
                    None \<Rightarrow> (let (bs, dl') = DataLoader_iter R dl
                              in (its @ [(grp, bs)], dict_set dls grp dl'))
                  | Some _ \<Rightarrow> (its, dls))
           in case dict_get its1 grp of
                None \<Rightarrow> ([], KeyError, dls1)
              | Some [] \<Rightarrow> ([], StopIteration, dls1)
              | Some (b # bs) \<Rightarrow>
                  (case emit grp (dataset dl) b of
                     Inl e \<Rightarrow> ([], e, dls1)
                   | Inr y \<Rightarrow>
                       (let (ys, e, dls') = iter_loop R emit rest dls1 (dict_set its1 grp bs)
                        in (y # ys, e, dls')))))"

text \<open>
  An exception that leaves a generator body reaches the caller of \<^verbatim>\<open>next\<close> as it is,
  except StopIteration, which Python turns into RuntimeError (PEP 479, the behaviour of
  every Python from 3.7 on).
\<close>

definition pep479 :: "exc \<Rightarrow> exc" where
  "pep479 e = (if e = StopIteration then RuntimeError else e)"

text \<open>
  What \<^verbatim>\<open>GroupDataLoader._iter\<close> yields for one batch. \<open>fetch\<close> stands for the dataset
  class with its parameters and torch's collation: from the records of the group and the
  indices of the batch, the input batch and the target batch, or the exception raised.
  The pipeline is read from the first record of the group.
\<close>

definition emit_group ::
  "(json list \<Rightarrow> nat list \<Rightarrow> exc + ('x \<times> 'y)) \<Rightarrow> json \<Rightarrow> json list \<Rightarrow> nat list \<Rightarrow>
   exc + ((json \<times> json \<times> 'x) \<times> 'y)" where
  "emit_group fetch grp ds b =
     (case fetch ds b of
        Inl e \<Rightarrow> Inl e
      | Inr (x_batch, y_batch) \<Rightarrow>
          (case ds of
             [] \<Rightarrow> Inl IndexError
           | r # _ \<Rightarrow>
               (case subscript r ''pipeline'' of
                  Inl e \<Rightarrow> Inl e
                | Inr pipeline \<Rightarrow> Inr ((grp, pipeline, x_batch), y_batch))))"

text \<open>
  One full pass over a \<open>GroupDataLoader\<close>: the batches yielded, the exception the caller
  sees when the generator ends, and the loader afterwards.
\<close>

definition GroupDataLoader_iter ::
  "'g rng \<Rightarrow> (json list \<Rightarrow> nat list \<Rightarrow> exc + ('x \<times> 'y)) \<Rightarrow> 'g GroupDataLoader \<Rightarrow>
   (((json \<times> json \<times> 'x) \<times> 'y) list \<times> exc) \<times> 'g GroupDataLoader" where
  "GroupDataLoader_iter R fetch self =
     (let (ys, e, dls) = iter_loop R (emit_group fetch) (group_batches self) (group_dataloaders self) []
      in ((ys, pep479 e), self\<lparr>group_dataloaders := dls\<rparr>))"

section \<open>The dataset classes and the RNN loader\<close>

text \<open>
  \<^verbatim>\<open>Dataset.__getitem__\<close> reads the features and the target of one record and turns
  them into tensors. A tensor is represented by the JSON value it is built from; the
  conversion itself (dtype, device) is torch's and is not modelled. An index outside the
  list raises IndexError, a missing key KeyError.
\<close>

definition Dataset_getitem :: "string \<Rightarrow> string \<Rightarrow> json list \<Rightarrow> nat \<Rightarrow> exc + (json \<times> json)" where
  "Dataset_getitem features_key target_key dat item =
     (if item < length dat
      then (case subscript (dat ! item) features_key of
              Inl e \<Rightarrow> Inl e
            | Inr x \<Rightarrow>
                (case subscript (dat ! item) target_key of
                   Inl e \<Rightarrow> Inl e
                 | Inr y \<Rightarrow> Inr (x, y)))
      else Inl IndexError)"

text \<open>
  torch fetches a batch as \<^verbatim>\<open>[dataset[i] for i in batch]\<close> and collates the items
  field by field.
\<close>

fun fetch_items :: "(nat \<Rightarrow> exc + 'a) \<Rightarrow> nat list \<Rightarrow> exc + 'a list" where
  "fetch_items getitem [] = Inr []"
| "fetch_items getitem (i # rest) =
     (case getitem i of
        Inl e \<Rightarrow> Inl e
      | Inr x \<Rightarrow> (case fetch_items getitem rest of Inl e \<Rightarrow> Inl e | Inr xs \<Rightarrow> Inr (x # xs)))"

definition Dataset_fetch ::
  "string \<Rightarrow> string \<Rightarrow> json list \<Rightarrow> nat list \<Rightarrow> exc + (json list \<times> json list)" where
  "Dataset_fetch features_key target_key dat b =
     (case fetch_items (Dataset_getitem features_key target_key dat) b of
        Inl e \<Rightarrow> Inl e
      | Inr items \<Rightarrow> Inr (map fst items, map snd items))"

text \<open>
  Iterating a JSON value with \<^verbatim>\<open>for\<close>: the elements of a list, the keys of a
  dictionary, the characters of a string; anything else is not iterable.
\<close>

fun py_iter :: "json \<Rightarrow> exc + json list" where
  "py_iter (JArr xs) = Inr xs"
| "py_iter (JObj kvs) = Inr (map (\<lambda>kv. JStr (fst kv)) kvs)"
| "py_iter (JStr s) = Inr (map (\<lambda>c. JStr [c]) s)"
| "py_iter _ = Inl TypeError"

text \<open>
  \<^verbatim>\<open>RNNDataset.encode_pipeline\<close>: the encoding of every step's primitive name, looked
  up in the dictionary \<^verbatim>\<open>primitive_to_enc\<close>. \<^verbatim>\<open>RNNDataset.__getitem__\<close>: the item of
  the base class, then the encoded pipeline of the record.
\<close>

definition encode_primitive :: "'e pydict \<Rightarrow> json \<Rightarrow> exc + 'e" where
  "encode_primitive primitive_to_enc primitive =
     (case subscript primitive ''name'' of
        Inl e \<Rightarrow> Inl e
      | Inr primitive_name \<Rightarrow>
          (case hash_key primitive_name of
             None \<Rightarrow> Inl TypeError
           | Some _ \<Rightarrow>
               (case dict_get primitive_to_enc primitive_name of
                  None \<Rightarrow> Inl KeyError
                | Some encoded_primitive \<Rightarrow> Inr encoded_primitive)))"

fun encode_steps :: "'e pydict \<Rightarrow> json list \<Rightarrow> exc + 'e list" where
  "encode_steps primitive_to_enc [] = Inr []"
| "encode_steps primitive_to_enc (primitive # rest) =
     (case encode_primitive primitive_to_enc primitive of
        Inl e \<Rightarrow> Inl e
      | Inr x \<Rightarrow>
          (case encode_steps primitive_to_enc rest of Inl e \<Rightarrow> Inl e | Inr xs \<Rightarrow> Inr (x # xs)))"

definition encode_pipeline :: "'e pydict \<Rightarrow> json \<Rightarrow> exc + 'e list" where
  "encode_pipeline primitive_to_enc pipeline =
     (case subscript pipeline ''steps'' of
        Inl e \<Rightarrow> Inl e
      | Inr steps \<Rightarrow>
          (case py_iter steps of
             Inl e \<Rightarrow> Inl e
           | Inr primitives \<Rightarrow> encode_steps primitive_to_enc primitives))"

definition RNNDataset_getitem ::
  "'e pydict \<Rightarrow> string \<Rightarrow> string \<Rightarrow> json list \<Rightarrow> nat \<Rightarrow> exc + ('e list \<times> json \<times> json)" where
  "RNNDataset_getitem primitive_to_enc features_key target_key dat index =
     (case Dataset_getitem features_key target_key dat index of
        Inl e \<Rightarrow> Inl e
      | Inr (x, y) \<Rightarrow>
          (case subscript (dat ! index) ''pipeline'' of
             Inl e \<Rightarrow> Inl e
           | Inr pipeline \<Rightarrow>
               (case encode_pipeline primitive_to_enc pipeline of
                  Inl e \<Rightarrow> Inl e
                | Inr encoded_pipeline \<Rightarrow> Inr (encoded_pipeline, x, y))))"

definition RNNDataset_fetch ::
  "'e pydict \<Rightarrow> string \<Rightarrow> string \<Rightarrow> json list \<Rightarrow> nat list \<Rightarrow>
   exc + ('e list list \<times> json list \<times> json list)" where
  "RNNDataset_fetch primitive_to_enc features_key target_key dat b =
     (case fetch_items (RNNDataset_getitem primitive_to_enc features_key target_key dat) b of
        Inl e \<Rightarrow> Inl e
      | Inr items \<Rightarrow>
          Inr (map fst items, map (\<lambda>it. fst (snd it)) items, map (\<lambda>it. snd (snd it)) items))"

text \<open>
  \<^verbatim>\<open>RNNDataLoader.__init__\<close>: the base constructor, then for every group the list of
  the \<^verbatim>\<open>inputs\<close> of the steps of the pipeline of the group's first record.
\<close>

record 'g RNNDataLoader =
  base :: "'g GroupDataLoader"
  pipeline_structures :: "json list pydict"

fun inputs_of_steps :: "json list \<Rightarrow> exc + json list" where
  "inputs_of_steps [] = Inr []"
| "inputs_of_steps (primitive # rest) =
     (case subscript primitive ''inputs'' of
        Inl e \<Rightarrow> Inl e
      | Inr x \<Rightarrow> (case inputs_of_steps rest of Inl e \<Rightarrow> Inl e | Inr xs \<Rightarrow> Inr (x # xs)))"

definition group_structure_of :: "json list \<Rightarrow> nat list \<Rightarrow> exc + json list" where
  "group_structure_of dat group_indices =
     (case group_indices of
        [] \<Rightarrow> Inl IndexError
      | index # _ \<Rightarrow>
          (if index < length dat
           then (case subscript (dat ! index) ''pipeline'' of
                   Inl e \<Rightarrow> Inl e
                 | Inr p \<Rightarrow>
                     (case subscript p ''steps'' of
                        Inl e \<Rightarrow> Inl e
                      | Inr pipeline \<Rightarrow>
                          (case py_iter pipeline of
                             Inl e \<Rightarrow> Inl e
                           | Inr primitives \<Rightarrow> inputs_of_steps primitives)))
           else Inl IndexError))"

fun structures_loop :: "json list \<Rightarrow> nat list pydict \<Rightarrow> exc + json list pydict" where
  "structures_loop dat [] = Inr []"
| "structures_loop dat ((grp, group_indices) # rest) =
     (case group_structure_of dat group_indices of
        Inl e \<Rightarrow> Inl e
      | Inr group_structure \<Rightarrow>
          (case structures_loop dat rest of
             Inl e \<Rightarrow> Inl e
           | Inr sts \<Rightarrow> Inr ((grp, group_structure) # sts)))"

definition RNNDataLoader_init ::
  "'g rng \<Rightarrow> json list \<Rightarrow> string \<Rightarrow> int \<Rightarrow> bool \<Rightarrow> bool \<Rightarrow> int \<Rightarrow> exc + 'g RNNDataLoader" where
  "RNNDataLoader_init R dat gkey bsize dropl shuf sd =
     (case GroupDataLoader_init R dat gkey bsize dropl shuf sd of
        Inl e \<Rightarrow> Inl e
      | Inr b \<Rightarrow>
          (case group_json_objects dat gkey of
             Inl e \<Rightarrow> Inl e
           | Inr grouped_by_structure \<Rightarrow>
               (case structures_loop dat grouped_by_structure of
                  Inl e \<Rightarrow> Inl e
                | Inr sts \<Rightarrow> Inr \<lparr>base = b, pipeline_structures = sts\<rparr>)))"

text \<open>
  What \<^verbatim>\<open>RNNDataLoader._iter\<close> yields for one batch, and one full pass over an
  \<open>RNNDataLoader\<close>.
\<close>

definition emit_rnn ::
  "json list pydict \<Rightarrow> (json list \<Rightarrow> nat list \<Rightarrow> exc + ('p \<times> 'x \<times> 'y)) \<Rightarrow> json \<Rightarrow> json list \<Rightarrow>
   nat list \<Rightarrow> exc + ((json list \<times> 'p \<times> 'x) \<times> 'y)" where
  "emit_rnn structures fetch grp ds b =
     (case fetch ds b of
        Inl e \<Rightarrow> Inl e
      | Inr (pipeline_batch, x_batch, y_batch) \<Rightarrow>
          (case dict_get structures grp of
             None \<Rightarrow> Inl KeyError
           | Some group_structure \<Rightarrow> Inr ((group_structure, pipeline_batch, x_batch), y_batch)))"

definition RNNDataLoader_iter ::
  "'g rng \<Rightarrow> (json list \<Rightarrow> nat list \<Rightarrow> exc + ('p \<times> 'x \<times> 'y)) \<Rightarrow> 'g RNNDataLoader \<Rightarrow>
   (((json list \<times> 'p \<times> 'x) \<times> 'y) list \<times> exc) \<times> 'g RNNDataLoader" where
  "RNNDataLoader_iter R fetch self =
     (let (ys, e, dls) = iter_loop R (emit_rnn (pipeline_structures self) fetch)
                           (group_batches (base self)) (group_dataloaders (base self)) []
      in ((ys, pep479 e), self\<lparr>base := (base self)\<lparr>group_dataloaders := dls\<rparr>\<rparr>))"

text \<open>The loader after \<open>k\<close> full passes.\<close>

fun GroupDataLoader_after ::
  "'g rng \<Rightarrow> (json list \<Rightarrow> nat list \<Rightarrow> exc + ('x \<times> 'y)) \<Rightarrow> nat \<Rightarrow> 'g GroupDataLoader \<Rightarrow>
   'g GroupDataLoader" where
  "GroupDataLoader_after R fetch 0 self = self"
| "GroupDataLoader_after R fetch (Suc k) self =
     GroupDataLoader_after R fetch k (snd (GroupDataLoader_iter R fetch self))"

fun RNNDataLoader_after ::
  "'g rng \<Rightarrow> (json list \<Rightarrow> nat list \<Rightarrow> exc + ('p \<times> 'x \<times> 'y)) \<Rightarrow> nat \<Rightarrow> 'g RNNDataLoader \<Rightarrow>
   'g RNNDataLoader" where
  "RNNDataLoader_after R fetch 0 self = self"
| "RNNDataLoader_after R fetch (Suc k) self =
     RNNDataLoader_after R fetch k (snd (RNNDataLoader_iter R fetch self))"

section \<open>Invariants used in the proofs\<close>

text \<open>
  \<open>sampler_ok n s\<close>: the list held by the sampler is a permutation of
  \<open>0, \<dots>, n - 1\<close>. \<open>dl_ok dl\<close>: the batch size is positive and the sampler, if any,
  is a permutation sampler over the dataset. \<open>count_key g sched\<close>: how often the
  label \<open>g\<close> stands in a schedule.
\<close>

definition sampler_ok :: "nat \<Rightarrow> 'g RandomSampler \<Rightarrow> bool" where
  "sampler_ok n s = (mset (sampler_indices s) = mset [0..<n])"

definition dl_ok :: "'g DataLoader \<Rightarrow> bool" where
  "dl_ok dl =
     (0 < dl_batch_size dl \<and>
      (case sampler dl of None \<Rightarrow> True | Some s \<Rightarrow> sampler_ok (length (dataset dl)) s))"

definition count_key :: "json \<Rightarrow> json list \<Rightarrow> nat" where
  "count_key g sched = length (filter (\<lambda>h. hash_key h = hash_key g) sched)"

text \<open>
  \<open>batches_ok ds bs\<close>: every index batch is non-empty and stays inside the dataset.
  \<open>emit_total emit dls\<close>: fetching succeeds on every such batch of every group.
\<close>

definition batches_ok :: "json list \<Rightarrow> nat list list \<Rightarrow> bool" where
  "batches_ok ds bs = (\<forall>b \<in> set bs. b \<noteq> [] \<and> set b \<subseteq> {0..<length ds})"

definition emit_total ::
  "(json \<Rightarrow> json list \<Rightarrow> nat list \<Rightarrow> exc + 'y) \<Rightarrow> 'g DataLoader pydict \<Rightarrow> bool" where
  "emit_total emit dls =
     (\<forall>g dl b. dict_get dls g = Some dl \<longrightarrow> b \<noteq> [] \<longrightarrow> set b \<subseteq> {0..<length (dataset dl)} \<longrightarrow>
        (\<exists>y. emit g (dataset dl) b = Inr y))"

text \<open>
  \<open>same_static dls dls'\<close>: the two dictionaries hold, under every key, batch sources with
  the same dataset, batch size and drop-last flag.
\<close>

definition static :: "'g DataLoader \<Rightarrow> json list \<times> nat \<times> bool" where
  "static dl = (dataset dl, dl_batch_size dl, dl_drop_last dl)"

definition same_static :: "'g DataLoader pydict \<Rightarrow> 'g DataLoader pydict \<Rightarrow> bool" where
  "same_static dls dls' = (\<forall>g. map_option static (dict_get dls' g) = map_option static (dict_get dls g))"

text \<open>
  The invariant of the generator body: every batch source is well formed, the iterators
  opened so far hold batches of their group, and every label still in the schedule has as
  many batches left as it has occurrences left.
\<close>

definition iter_inv ::
  "json list \<Rightarrow> 'g DataLoader pydict \<Rightarrow> nat list list pydict \<Rightarrow> bool" where
  "iter_inv sched dls its =
     ((\<forall>g dl. dict_get dls g = Some dl \<longrightarrow> dl_ok dl) \<and>
      (\<forall>g bs. dict_get its g = Some bs \<longrightarrow>
         (\<exists>dl. dict_get dls g = Some dl \<and> batches_ok (dataset dl) bs)) \<and>
      (\<forall>g \<in> set sched. \<exists>dl. dict_get dls g = Some dl \<and>
         (case dict_get its g of None \<Rightarrow> DataLoader_len dl | Some bs \<Rightarrow> length bs)
           = count_key g sched))"

text \<open>
  The invariant of a constructed loader: every batch source is well formed and every
  label of the schedule occurs once per batch of its group.
\<close>

definition loader_ok :: "'g GroupDataLoader \<Rightarrow> bool" where
  "loader_ok self =
     ((\<forall>g dl. dict_get (group_dataloaders self) g = Some dl \<longrightarrow> dl_ok dl) \<and>
      (\<forall>g \<in> set (group_batches self). \<exists>dl. dict_get (group_dataloaders self) g = Some dl \<and>
         DataLoader_len dl = count_key g (group_batches self)))"

text \<open>
  \<open>Dataset_item_ok\<close>, \<open>RNNDataset_item_ok\<close>: the dataset class can build its item from
  the record. \<open>has_pipeline\<close>: the record has the key \<^verbatim>\<open>'pipeline'\<close>.
\<close>

definition Dataset_item_ok :: "string \<Rightarrow> string \<Rightarrow> json \<Rightarrow> bool" where
  "Dataset_item_ok features_key target_key r =
     (case Dataset_getitem features_key target_key [r] 0 of Inl e \<Rightarrow> False | Inr v \<Rightarrow> True)"

definition RNNDataset_item_ok :: "'e pydict \<Rightarrow> string \<Rightarrow> string \<Rightarrow> json \<Rightarrow> bool" where
  "RNNDataset_item_ok primitive_to_enc features_key target_key r =
     (case RNNDataset_getitem primitive_to_enc features_key target_key [r] 0 of
        Inl e \<Rightarrow> False | Inr v \<Rightarrow> True)"

definition has_pipeline :: "json \<Rightarrow> bool" where
  "has_pipeline r = (case subscript r ''pipeline'' of Inl e \<Rightarrow> False | Inr v \<Rightarrow> True)"

section \<open>Concrete inputs\<close>




text \<open>
  A generator for the concrete instances: seeded with \<open>s\<close>, its \<open>n\<close>-th draw below
  \<open>m\<close> is \<open>(\<bar>s\<bar> + n) mod m\<close>. Four records in two groups (\<^verbatim>\<open>p\<close> with three
  records, \<^verbatim>\<open>q\<close> with one).
\<close>

definition counter_rng :: "int rng" where
  "counter_rng = \<lparr>rng_seed = (\<lambda>s. \<bar>s\<bar>), rng_below = (\<lambda>g n. (g mod n, g + 1))\<rparr>"

definition loader_records :: "json list" where
  "loader_records =
     [JObj [(''pipeline'', JObj [(''id'', JStr ''p'')]), (''metafeatures'', JArr [JInt 10]), (''target'', JInt 0)],
      JObj [(''pipeline'', JObj [(''id'', JStr ''q'')]), (''metafeatures'', JArr [JInt 11]), (''target'', JInt 1)],
      JObj [(''pipeline'', JObj [(''id'', JStr ''p'')]), (''metafeatures'', JArr [JInt 12]), (''target'', JInt 0)],
      JObj [(''pipeline'', JObj [(''id'', JStr ''p'')]), (''metafeatures'', JArr [JInt 13]), (''target'', JInt 1)]]"

text \<open>Three records with two pipeline structures, and an encoding of the primitive names.\<close>

definition rnn_records :: "json list" where
  "rnn_records =
     [JObj [(''pipeline'', JObj [(''steps'', JArr [JObj [(''name'', JStr ''a''), (''inputs'', JArr [JStr ''inputs.0''])]])]),
            (''pipeline_structure'', JStr ''inputs.0''),
            (''metafeatures'', JArr [JInt 10]), (''target'', JInt 0)],
      JObj [(''pipeline'', JObj [(''steps'', JArr [JObj [(''name'', JStr ''a''), (''inputs'', JArr [JStr ''inputs.0''])],
                                                  JObj [(''name'', JStr ''b''), (''inputs'', JArr [JInt 0])]])]),
            (''pipeline_structure'', JStr ''inputs.00''),
            (''metafeatures'', JArr [JInt 11]), (''target'', JInt 1)],
      JObj [(''pipeline'', JObj [(''steps'', JArr [JObj [(''name'', JStr ''b''), (''inputs'', JArr [JStr ''inputs.0''])]])]),
            (''pipeline_structure'', JStr ''inputs.0''),
            (''metafeatures'', JArr [JInt 12]), (''target'', JInt 0)]]"

definition rnn_encoding :: "int list pydict" where
  "rnn_encoding = [(JStr ''a'', [1, 0]), (JStr ''b'', [0, 1])]"

section \<open>Properties of the structural key encoder\<close>

lemma str_nat_digit: "n < 10 \<Longrightarrow> str_nat n = [digit_char n]"
  by (simp add: str_nat.simps)

text \<open>
  Claim C1. The claim asks that the encoder tells \<^verbatim>\<open>[[1,2],[3]]\<close> from
  \<^verbatim>\<open>[[1],[2,3]]\<close> and \<^verbatim>\<open>[[0],[1]]\<close> from \<^verbatim>\<open>[[0,1]]\<close>. The function joins
  every reference of every vertex with the empty separator, so each pair is encoded by
  one string: the first pair by \<^verbatim>\<open>"123"\<close>, the second by \<^verbatim>\<open>"01"\<close>. The docstring of
  the function says that two DAGs with the same encoding are equal; here they are not.
\<close>

theorem encode_dag_collides:
  "encode_dag [[RefInt 1, RefInt 2], [RefInt 3]] = ''123''
   \<and> encode_dag [[RefInt 1], [RefInt 2, RefInt 3]] = ''123''
   \<and> encode_dag [[RefInt 0], [RefInt 1]] = ''01''
   \<and> encode_dag [[RefInt 0, RefInt 1]] = ''01''
   \<and> [[RefInt 1, RefInt 2], [RefInt 3]] \<noteq> [[RefInt 1], [RefInt 2, RefInt 3]]
   \<and> [[RefInt 0], [RefInt 1]] \<noteq> [[RefInt 0, RefInt 1]]"
  by (simp add: encode_dag_def str_int_def str_nat_digit digit_char_def)

section \<open>Properties of the grouping index\<close>

lemma dict_get_cong: "hash_key g = hash_key g' \<Longrightarrow> dict_get d g = dict_get d g'"
  by (induction d) auto

lemma dict_get_append:
  "dict_get (d @ e) g = (case dict_get d g of None \<Rightarrow> dict_get e g | Some v \<Rightarrow> Some v)"
  by (induction d) auto

lemma dict_get_apply:
  "dict_get (dict_apply d g f) g' =
     (if hash_key g' = hash_key g then map_option f (dict_get d g) else dict_get d g')"
  by (induction d) auto

lemma dict_get_add_index:
  "dict_get (add_index d g i) g' =
     (if hash_key g' = hash_key g
      then Some ((case dict_get d g of None \<Rightarrow> [] | Some l \<Rightarrow> l) @ [i])
      else dict_get d g')"
  by (auto simp: add_index_def dict_get_apply dict_get_append split: option.splits)

lemma keys_dict_apply: "map (\<lambda>kv. hash_key (fst kv)) (dict_apply d g f) = map (\<lambda>kv. hash_key (fst kv)) d"
  by (induction d) auto

lemma dict_get_None_iff: "dict_get d g = None \<longleftrightarrow> hash_key g \<notin> set (map (\<lambda>kv. hash_key (fst kv)) d)"
  by (induction d) (auto split: if_splits)

lemma keys_distinct_add_index:
  assumes "keys_distinct d"
  shows "keys_distinct (add_index d g i)"
proof (cases "dict_get d g")
  case None
  then have "hash_key g \<notin> set (map (\<lambda>kv. hash_key (fst kv)) d)"
    using dict_get_None_iff [of d g] by blast
  with assms None show ?thesis
    by (auto simp add: keys_distinct_def add_index_def keys_dict_apply)
next
  case (Some l)
  with assms show ?thesis
    by (simp add: keys_distinct_def add_index_def keys_dict_apply)
qed

lemma dict_get_entry: "keys_distinct d \<Longrightarrow> (k, v) \<in> set d \<Longrightarrow> dict_get d k = Some v"
  by (induction d) (auto simp: keys_distinct_def rev_image_eqI)

lemma dict_get_in: "dict_get d g = Some v \<Longrightarrow> \<exists>k. (k, v) \<in> set d \<and> hash_key k = hash_key g"
  by (induction d) (auto split: if_splits)


lemma group_loop_keys_distinct:
  "group_loop ks ps acc = Inr res \<Longrightarrow> keys_distinct acc \<Longrightarrow> keys_distinct res"
  by (induction ps arbitrary: acc) (auto simp: keys_distinct_add_index split: sum.splits option.splits)

lemma group_loop_get:
  "group_loop ks ps acc = Inr res \<Longrightarrow>
   dict_get res g =
     (let new = map fst (filter (\<lambda>p. in_group ks (snd p) g) ps)
      in case dict_get acc g of
           None \<Rightarrow> (if new = [] then None else Some new)
         | Some l \<Rightarrow> Some (l @ new))"
proof (induction ps arbitrary: acc)
  case Nil
  then show ?case by (simp split: option.splits)
next
  case (Cons p ps)
  obtain i obj where p: "p = (i, obj)" by (cases p)
  from Cons.prems p obtain grp where
    gg: "get_group obj ks = Inr grp" and
    rest: "group_loop ks ps (add_index acc grp i) = Inr res"
    by (auto split: sum.splits option.splits)
  show ?case
  proof (cases "hash_key grp = hash_key g")
    case True
    then have "dict_get acc grp = dict_get acc g" by (rule dict_get_cong)
    with True show ?thesis
      using Cons.IH [OF rest] gg
      by (auto simp: p Let_def in_group_def dict_get_add_index split: option.splits)
  next
    case False
    then show ?thesis
      using Cons.IH [OF rest] gg
      by (auto simp: p Let_def in_group_def dict_get_add_index split: option.splits)
  qed
qed


lemma enumerate_filter:
  "map fst (filter (\<lambda>p. P (snd p)) (enumerate 0 xs)) = filter (\<lambda>i. P (xs ! i)) [0..<length xs]"
proof (induction xs rule: rev_induct)
  case Nil
  then show ?case by simp
next
  case (snoc x xs)
  have "filter (\<lambda>i. P ((xs @ [x]) ! i)) [0..<length xs] = filter (\<lambda>i. P (xs ! i)) [0..<length xs]"
    by (rule filter_cong) (auto simp: nth_append)
  with snoc show ?case
    by (simp add: enumerate_append_eq)
qed

lemma group_json_objects_get:
  assumes "group_json_objects objs key = Inr res"
  shows "dict_get res g =
     (let new = filter (\<lambda>i. in_group (split_on CHR ''.'' key) (objs ! i) g) [0..<length objs]
      in if new = [] then None else Some new)"
  using group_loop_get [OF assms [unfolded group_json_objects_def], of g]
  by (simp add: enumerate_filter [of "\<lambda>obj. in_group (split_on CHR ''.'' key) obj g"])

lemma group_json_objects_keys:
  "group_json_objects objs key = Inr res \<Longrightarrow> keys_distinct res"
  unfolding group_json_objects_def
  by (erule group_loop_keys_distinct) (simp add: keys_distinct_def)


lemma group_json_objects_entry:
  assumes "group_json_objects objs key = Inr res" and "(g, idxs) \<in> set res"
  shows "idxs = filter (\<lambda>i. in_group (split_on CHR ''.'' key) (objs ! i) g) [0..<length objs]"
proof -
  have "dict_get res g = Some idxs"
    by (rule dict_get_entry [OF group_json_objects_keys [OF assms(1)] assms(2)])
  then show ?thesis
    using group_json_objects_get [OF assms(1), of g]
    by (simp add: Let_def split: if_splits)
qed





lemma split_pipeline_id: "split_on CHR ''.'' ''pipeline.id'' = [''pipeline'', ''id'']"
  by simp




section \<open>Properties of the shuffle and of the batching\<close>

text \<open>
  Whatever the generator draws, the library's shuffle swaps elements of the list, so the
  result is a permutation of the input.
\<close>

lemma shuffle_loop_mset:
  "k < length x \<or> k = 0 \<Longrightarrow> mset (fst (shuffle_loop R k x g)) = mset x"
proof (induction k arbitrary: x g)
  case 0
  then show ?case by simp
next
  case (Suc k)
  obtain r g' where d: "rng_below R g (int (Suc k) + 1) = (r, g')"
    by (cases "rng_below R g (int (Suc k) + 1)")
  let ?j = "nat (r mod (int (Suc k) + 1))"
  have j: "?j < length x"
  proof -
    have "r mod (int (Suc k) + 1) < int (Suc k) + 1"
      by (rule pos_mod_bound) simp
    with Suc.prems show ?thesis by linarith
  qed
  from Suc.prems have i: "Suc k < length x" by simp
  let ?x' = "x[Suc k := x ! ?j, ?j := x ! Suc k]"
  have "mset ?x' = mset x"
    using i j by (simp add: mset_swap)
  moreover have "mset (fst (shuffle_loop R k ?x' g')) = mset ?x'"
    by (rule Suc.IH) (use i in simp)
  ultimately show ?case
    using d by (simp add: Let_def)
qed

lemma py_shuffle_mset: "mset (fst (py_shuffle R x g)) = mset x"
  unfolding py_shuffle_def by (rule shuffle_loop_mset) (cases x; simp)

lemma py_shuffle_length: "length (fst (py_shuffle R x g)) = length x"
  using py_shuffle_mset [of R x g] by (metis size_mset)

lemma py_shuffle_set: "set (fst (py_shuffle R x g)) = set x"
  using py_shuffle_mset [of R x g] by (metis set_mset_mset)

lemma py_shuffle_distinct: "distinct (fst (py_shuffle R x g)) = distinct x"
  using py_shuffle_mset [of R x g] by (metis distinct_count_atmost_1 set_mset_mset)

lemma sampler_ok_init: "sampler_ok n (RandomSampler_init R n sd)"
  by (simp add: sampler_ok_def RandomSampler_init_def)

lemma sampler_ok_iter:
  assumes "sampler_ok n s"
  shows "sampler_ok n (snd (RandomSampler_iter R s))"
    and "mset (fst (RandomSampler_iter R s)) = mset [0..<n]"
  using assms py_shuffle_mset [of R "sampler_indices s" "sampler_random s"]
  by (auto simp: sampler_ok_def RandomSampler_iter_def split: prod.splits)

lemma batch_loop_concat_keep: "concat (batch_loop bs False b xs) = b @ xs"
  by (induction xs arbitrary: b) (auto simp: Let_def)

lemma batch_loop_length:
  "length b < bs \<Longrightarrow>
   length (batch_loop bs dropl b xs) =
     (if dropl then (length b + length xs) div bs else (length b + length xs + bs - 1) div bs)"
proof (induction xs arbitrary: b)
  case Nil
  then show ?case by (cases b) (auto simp: div_eq_0_iff)
next
  case (Cons idx rest)
  show ?case
  proof (cases "Suc (length b) = bs")
    case True
    let ?m = "length rest"
    have ih: "length (batch_loop bs dropl [] rest) =
        (if dropl then ?m div bs else (?m + bs - 1) div bs)"
      using Cons.IH [of "[]"] Cons.prems by simp
    have bs: "0 < bs" using True by simp
    have tot: "length b + length (idx # rest) = bs + ?m" using True by simp
    have d1: "(bs + ?m) div bs = Suc (?m div bs)" using bs by simp
    have "bs + ?m + bs - 1 = (?m + bs - 1) + bs" using bs by simp
    then have d2: "(bs + ?m + bs - 1) div bs = Suc ((?m + bs - 1) div bs)"
      using bs by (simp only: div_add_self2)
    have r1: "(length b + length (idx # rest)) div bs = Suc (?m div bs)"
      by (simp only: tot d1)
    have r2: "(length b + length (idx # rest) + bs - 1) div bs = Suc ((?m + bs - 1) div bs)"
      by (simp only: tot d2)
    have step: "length (batch_loop bs dropl b (idx # rest)) = Suc (length (batch_loop bs dropl [] rest))"
      using True by (simp add: Let_def)
    show ?thesis
    proof (cases dropl)
      case True
      with step ih r1 show ?thesis by simp
    next
      case False
      with step ih r2 show ?thesis by simp
    qed
  next
    case False
    with Cons.prems have "length (b @ [idx]) < bs" by simp
    from Cons.IH [OF this] False show ?thesis
      by (simp add: Let_def)
  qed
qed

lemma batch_loop_concat_drop:
  "length b < bs \<Longrightarrow>
   concat (batch_loop bs True b xs) = take ((length b + length xs) div bs * bs) (b @ xs)"
proof (induction xs arbitrary: b)
  case Nil
  then show ?case by simp
next
  case (Cons idx rest)
  show ?case
  proof (cases "Suc (length b) = bs")
    case True
    let ?m = "length rest"
    have ih: "concat (batch_loop bs True [] rest) = take (?m div bs * bs) rest"
      using Cons.IH [of "[]"] Cons.prems by simp
    have bs: "0 < bs" using True by simp
    have tot: "length b + length (idx # rest) = bs + ?m" using True by simp
    have d1: "(bs + ?m) div bs * bs = bs + ?m div bs * bs" using bs by simp
    have len: "length (b @ [idx]) = bs" using True by simp
    have "take (bs + ?m div bs * bs) ((b @ [idx]) @ rest) = (b @ [idx]) @ take (?m div bs * bs) rest"
      using len by (simp only: take_append) simp
    moreover have "batch_loop bs True b (idx # rest) = (b @ [idx]) # batch_loop bs True [] rest"
      using True by (simp add: Let_def)
    ultimately show ?thesis
      by (simp only: tot d1 ih concat.simps) simp
  next
    case False
    with Cons.prems have "length (b @ [idx]) < bs" by simp
    from Cons.IH [OF this] False show ?thesis
      by (simp add: Let_def)
  qed
qed

lemma batch_loop_sizes:
  "length b < bs \<Longrightarrow> c \<in> set (batch_loop bs dropl b xs) \<Longrightarrow> 0 < length c \<and> length c \<le> bs"
proof (induction xs arbitrary: b)
  case Nil
  then show ?case by (auto split: if_splits)
next
  case (Cons idx rest)
  show ?case
  proof (cases "Suc (length b) = bs")
    case True
    with Cons.prems(2) have "c = b @ [idx] \<or> c \<in> set (batch_loop bs dropl [] rest)"
      by (auto simp: Let_def)
    then show ?thesis
      using True Cons.IH [of "[]"] Cons.prems(1) by auto
  next
    case False
    with Cons.prems have "length (b @ [idx]) < bs" "c \<in> set (batch_loop bs dropl (b @ [idx]) rest)"
      by (auto simp: Let_def)
    then show ?thesis by (rule Cons.IH)
  qed
qed

section \<open>Properties of one group's batch source\<close>

lemma dict_get_dict_set:
  "dict_get (dict_set d k v) g =
     (if hash_key g = hash_key k then map_option (\<lambda>_. v) (dict_get d k) else dict_get d g)"
  by (simp add: dict_set_def dict_get_apply)

lemma dict_set_same: "dict_get d k = Some v \<Longrightarrow> dict_set d k v = d"
  unfolding dict_set_def by (induction d) (auto split: if_splits)

lemma count_key_cong: "hash_key g = hash_key g' \<Longrightarrow> count_key g s = count_key g' s"
  by (simp add: count_key_def)

lemma count_key_Cons:
  "count_key g (h # s) = (if hash_key h = hash_key g then Suc (count_key g s) else count_key g s)"
  by (simp add: count_key_def)

lemma count_key_mset: "mset s = mset s' \<Longrightarrow> count_key g s = count_key g s'"
  unfolding count_key_def by (metis mset_filter size_mset)

lemma DataLoader_iter_static:
  "dataset (snd (DataLoader_iter R dl)) = dataset dl"
  "dl_batch_size (snd (DataLoader_iter R dl)) = dl_batch_size dl"
  "dl_drop_last (snd (DataLoader_iter R dl)) = dl_drop_last dl"
  by (auto simp: DataLoader_iter_def split: option.splits prod.splits)

lemma DataLoader_len_iter: "DataLoader_len (snd (DataLoader_iter R dl)) = DataLoader_len dl"
  by (simp add: DataLoader_len_def DataLoader_iter_static)

lemma DataLoader_iter_Some:
  "sampler dl = Some s \<Longrightarrow>
   DataLoader_iter R dl =
     (batch_loop (dl_batch_size dl) (dl_drop_last dl) [] (fst (RandomSampler_iter R s)),
      dl\<lparr>sampler := Some (snd (RandomSampler_iter R s))\<rparr>)"
  by (simp add: DataLoader_iter_def split: prod.splits)

lemma DataLoader_iter_None:
  "sampler dl = None \<Longrightarrow>
   DataLoader_iter R dl =
     (batch_loop (dl_batch_size dl) (dl_drop_last dl) [] [0..<length (dataset dl)], dl)"
  by (simp add: DataLoader_iter_def)

lemma dl_ok_iter:
  assumes "dl_ok dl"
  shows "dl_ok (snd (DataLoader_iter R dl))"
proof (cases "sampler dl")
  case None
  with assms show ?thesis by (simp add: DataLoader_iter_None)
next
  case (Some s)
  with assms have "sampler_ok (length (dataset dl)) s" by (simp add: dl_ok_def)
  then have "sampler_ok (length (dataset dl)) (snd (RandomSampler_iter R s))"
    by (rule sampler_ok_iter(1))
  with assms Some show ?thesis
    by (simp add: dl_ok_def DataLoader_iter_Some)
qed

text \<open>The indices that a pass over one batch source cuts into batches.\<close>

lemma DataLoader_iter_perm:
  assumes "dl_ok dl"
  obtains perm where "mset perm = mset [0..<length (dataset dl)]"
    and "fst (DataLoader_iter R dl) = batch_loop (dl_batch_size dl) (dl_drop_last dl) [] perm"
proof (cases "sampler dl")
  case None
  then show ?thesis
    using that [of "[0..<length (dataset dl)]"] by (simp add: DataLoader_iter_None)
next
  case (Some s)
  with assms have "sampler_ok (length (dataset dl)) s" by (simp add: dl_ok_def)
  from sampler_ok_iter(2) [OF this, of R] Some show ?thesis
    using that [of "fst (RandomSampler_iter R s)"]
    by (simp add: DataLoader_iter_Some)
qed

lemma DataLoader_iter_length:
  assumes "dl_ok dl"
  shows "length (fst (DataLoader_iter R dl)) = DataLoader_len dl"
proof -
  from assms obtain perm where p: "mset perm = mset [0..<length (dataset dl)]"
    and b: "fst (DataLoader_iter R dl) = batch_loop (dl_batch_size dl) (dl_drop_last dl) [] perm"
    by (rule DataLoader_iter_perm)
  from p have "length perm = length (dataset dl)" by (metis size_mset length_upt diff_zero)
  moreover from assms have "length ([]::nat list) < dl_batch_size dl" by (simp add: dl_ok_def)
  ultimately show ?thesis
    using batch_loop_length [of "[]" "dl_batch_size dl" "dl_drop_last dl" perm] b
    by (simp add: DataLoader_len_def Let_def)
qed

lemma DataLoader_iter_batches_ok:
  assumes "dl_ok dl"
  shows "batches_ok (dataset dl) (fst (DataLoader_iter R dl))"
proof -
  from assms obtain perm where p: "mset perm = mset [0..<length (dataset dl)]"
    and b: "fst (DataLoader_iter R dl) = batch_loop (dl_batch_size dl) (dl_drop_last dl) [] perm"
    by (rule DataLoader_iter_perm)
  from assms have bs: "length ([]::nat list) < dl_batch_size dl" by (simp add: dl_ok_def)
  from p have sp: "set perm = {0..<length (dataset dl)}"
    by (metis set_mset_mset set_upt)
  have "c \<noteq> [] \<and> set c \<subseteq> {0..<length (dataset dl)}"
    if c: "c \<in> set (batch_loop (dl_batch_size dl) (dl_drop_last dl) [] perm)" for c
  proof -
    from batch_loop_sizes [OF bs c] have "c \<noteq> []" by auto
    moreover have "set c \<subseteq> set perm"
    proof (cases "dl_drop_last dl")
      case True
      have "set c \<subseteq> set (concat (batch_loop (dl_batch_size dl) True [] perm))"
        using c True by auto
      also have "\<dots> \<subseteq> set perm"
        using batch_loop_concat_drop [OF bs, of perm] by (simp add: set_take_subset)
      finally show ?thesis .
    next
      case False
      have "set c \<subseteq> set (concat (batch_loop (dl_batch_size dl) False [] perm))"
        using c False by auto
      then show ?thesis by (simp add: batch_loop_concat_keep)
    qed
    ultimately show ?thesis using sp by simp
  qed
  with b show ?thesis by (simp add: batches_ok_def)
qed

section \<open>Properties of the generator body\<close>

lemma static_iter: "static (snd (DataLoader_iter R dl)) = static dl"
  by (simp add: static_def DataLoader_iter_static)

lemma DataLoader_len_static: "static dl = static dl' \<Longrightarrow> DataLoader_len dl = DataLoader_len dl'"
  by (simp add: static_def DataLoader_len_def)

lemma same_static_refl: "same_static dls dls"
  by (simp add: same_static_def)

lemma same_static_trans: "same_static a b \<Longrightarrow> same_static b c \<Longrightarrow> same_static a c"
  by (simp add: same_static_def)

lemma same_static_set:
  assumes "dict_get dls grp = Some dl" and "static dl' = static dl"
  shows "same_static dls (dict_set dls grp dl')"
  unfolding same_static_def
proof (intro allI)
  fix g
  show "map_option static (dict_get (dict_set dls grp dl') g) = map_option static (dict_get dls g)"
  proof (cases "hash_key g = hash_key grp")
    case True
    then have "dict_get dls g = Some dl"
      using assms(1) dict_get_cong [OF True, of dls] by simp
    with True assms show ?thesis by (simp add: dict_get_dict_set)
  next
    case False
    then show ?thesis by (simp add: dict_get_dict_set)
  qed
qed

lemma emit_total_static:
  assumes "emit_total emit dls" and "same_static dls dls'"
  shows "emit_total emit dls'"
  unfolding emit_total_def
proof (intro allI impI)
  fix g dl' b
  assume g: "dict_get dls' g = Some dl'" and b: "b \<noteq> []" "set b \<subseteq> {0..<length (dataset dl')}"
  from assms(2) have "map_option static (dict_get dls' g) = map_option static (dict_get dls g)"
    by (simp add: same_static_def)
  with g obtain dl where dl: "dict_get dls g = Some dl" "static dl = static dl'"
    by (cases "dict_get dls g") auto
  then have ds: "dataset dl = dataset dl'" by (simp add: static_def)
  from b have "b \<noteq> []" "set b \<subseteq> {0..<length (dataset dl)}" by (simp_all add: ds)
  with assms(1) dl(1) have "\<exists>y. emit g (dataset dl) b = Inr y"
    unfolding emit_total_def by blast
  then show "\<exists>y. emit g (dataset dl') b = Inr y" by (simp add: ds)
qed

lemma iter_loop_step_new:
  assumes "dict_get dls grp = Some dl" and "dict_get its grp = None"
    and "fst (DataLoader_iter R dl) = b # bs" and "emit grp (dataset dl) b = Inr y"
  shows "iter_loop R emit (grp # rest) dls its =
     (let (ys, e, dls') = iter_loop R emit rest (dict_set dls grp (snd (DataLoader_iter R dl)))
                            (dict_set (its @ [(grp, b # bs)]) grp bs)
      in (y # ys, e, dls'))"
proof -
  obtain x1 x2 where x: "DataLoader_iter R dl = (x1, x2)"
    by (cases "DataLoader_iter R dl")
  with assms(3) have "x1 = b # bs" by simp
  with assms(1,2,4) x show ?thesis
    by (simp add: dict_get_append)
qed

lemma iter_loop_step_old:
  assumes "dict_get dls grp = Some dl" and "dict_get its grp = Some (b # bs)"
    and "emit grp (dataset dl) b = Inr y"
  shows "iter_loop R emit (grp # rest) dls its =
     (let (ys, e, dls') = iter_loop R emit rest dls (dict_set its grp bs)
      in (y # ys, e, dls'))"
  using assms by (simp split: prod.splits)

lemma batches_ok_Cons: "batches_ok ds (b # bs) \<longleftrightarrow> b \<noteq> [] \<and> set b \<subseteq> {0..<length ds} \<and> batches_ok ds bs"
  by (auto simp: batches_ok_def)

lemma iter_inv_step_old:
  assumes inv: "iter_inv (grp # rest) dls its"
    and its: "dict_get its grp = Some (b # bs)"
  shows "iter_inv rest dls (dict_set its grp bs)"
  unfolding iter_inv_def
proof (intro conjI allI impI ballI)
  fix g dl assume "dict_get dls g = Some dl"
  with inv show "dl_ok dl" by (auto simp: iter_inv_def)
next
  fix g bs' assume a: "dict_get (dict_set its grp bs) g = Some bs'"
  show "\<exists>dl. dict_get dls g = Some dl \<and> batches_ok (dataset dl) bs'"
  proof (cases "hash_key g = hash_key grp")
    case True
    then have "dict_get its g = Some (b # bs)" using its dict_get_cong [OF True, of its] by simp
    with inv obtain dl where "dict_get dls g = Some dl" "batches_ok (dataset dl) (b # bs)"
      unfolding iter_inv_def by blast
    moreover from a True its have "bs' = bs" by (simp add: dict_get_dict_set)
    ultimately show ?thesis by (auto simp: batches_ok_Cons)
  next
    case False
    with a have "dict_get its g = Some bs'" by (simp add: dict_get_dict_set)
    with inv show ?thesis unfolding iter_inv_def by blast
  qed
next
  fix g assume g: "g \<in> set rest"
  with inv obtain dl where dl: "dict_get dls g = Some dl"
    and c: "(case dict_get its g of None \<Rightarrow> DataLoader_len dl | Some bs \<Rightarrow> length bs)
              = count_key g (grp # rest)"
    unfolding iter_inv_def by fastforce
  show "\<exists>dl. dict_get dls g = Some dl \<and>
      (case dict_get (dict_set its grp bs) g of None \<Rightarrow> DataLoader_len dl | Some bs \<Rightarrow> length bs)
        = count_key g rest"
  proof (cases "hash_key g = hash_key grp")
    case True
    then have "dict_get its g = Some (b # bs)" using its dict_get_cong [OF True, of its] by simp
    with c True have "length bs = count_key g rest" by (simp add: count_key_Cons)
    with dl True its show ?thesis by (simp add: dict_get_dict_set)
  next
    case False
    then have "hash_key grp \<noteq> hash_key g" by auto
    with c False dl show ?thesis by (simp add: dict_get_dict_set count_key_Cons)
  qed
qed

lemma iter_inv_step_new:
  assumes inv: "iter_inv (grp # rest) dls its"
    and dls: "dict_get dls grp = Some dl"
    and its: "dict_get its grp = None"
    and bs: "fst (DataLoader_iter R dl) = b # bs"
  shows "iter_inv rest (dict_set dls grp (snd (DataLoader_iter R dl)))
           (dict_set (its @ [(grp, b # bs)]) grp bs)"
proof -
  let ?dl' = "snd (DataLoader_iter R dl)"
  let ?dls1 = "dict_set dls grp ?dl'"
  let ?its1 = "its @ [(grp, b # bs)]"
  from inv dls have ok: "dl_ok dl" by (auto simp: iter_inv_def)
  have get_dls1: "dict_get ?dls1 g = (if hash_key g = hash_key grp then Some ?dl' else dict_get dls g)" for g
    using dls by (simp add: dict_get_dict_set)
  have get_its1: "dict_get ?its1 g = (if hash_key g = hash_key grp then Some (b # bs) else dict_get its g)" for g
  proof (cases "hash_key g = hash_key grp")
    case True
    with its have "dict_get its g = None" using dict_get_cong [OF True, of its] by simp
    with True show ?thesis by (simp add: dict_get_append)
  next
    case False
    then have "hash_key grp \<noteq> hash_key g" by auto
    then show ?thesis using False by (simp add: dict_get_append split: option.splits)
  qed
  have inv1: "iter_inv (grp # rest) ?dls1 ?its1"
    unfolding iter_inv_def
  proof (intro conjI allI impI ballI)
    fix g d assume "dict_get ?dls1 g = Some d"
    then show "dl_ok d"
      using inv ok dl_ok_iter [OF ok, of R]
      by (auto simp: get_dls1 iter_inv_def split: if_splits)
  next
    fix g bs' assume a: "dict_get ?its1 g = Some bs'"
    show "\<exists>d. dict_get ?dls1 g = Some d \<and> batches_ok (dataset d) bs'"
    proof (cases "hash_key g = hash_key grp")
      case True
      with a have "bs' = b # bs" by (simp add: get_its1)
      moreover have "batches_ok (dataset dl) (b # bs)"
        using DataLoader_iter_batches_ok [OF ok, of R] bs by simp
      ultimately show ?thesis using True by (simp add: get_dls1 DataLoader_iter_static)
    next
      case False
      with a inv show ?thesis by (auto simp: get_its1 get_dls1 iter_inv_def)
    qed
  next
    fix g assume g: "g \<in> set (grp # rest)"
    with inv obtain d where d: "dict_get dls g = Some d"
      and c: "(case dict_get its g of None \<Rightarrow> DataLoader_len d | Some bs \<Rightarrow> length bs)
                = count_key g (grp # rest)"
      unfolding iter_inv_def by fastforce
    show "\<exists>d. dict_get ?dls1 g = Some d \<and>
        (case dict_get ?its1 g of None \<Rightarrow> DataLoader_len d | Some bs \<Rightarrow> length bs)
          = count_key g (grp # rest)"
    proof (cases "hash_key g = hash_key grp")
      case True
      then have "dict_get its g = None" "dict_get dls g = Some dl"
        using its dls dict_get_cong [OF True, of its] dict_get_cong [OF True, of dls] by simp_all
      with c d have "DataLoader_len dl = count_key g (grp # rest)" by simp
      moreover have "length (b # bs) = DataLoader_len dl"
        using DataLoader_iter_length [OF ok, of R] bs by simp
      ultimately show ?thesis using True by (simp add: get_dls1 get_its1)
    next
      case False
      with c d show ?thesis by (simp add: get_dls1 get_its1)
    qed
  qed
  have "dict_get ?its1 grp = Some (b # bs)" by (simp add: get_its1)
  with inv1 show ?thesis by (rule iter_inv_step_old)
qed

lemma iter_loop_full:
  assumes "iter_inv sched dls its" and "emit_total emit dls"
  shows "\<exists>ys dls'. iter_loop R emit sched dls its = (ys, StopIteration, dls') \<and>
           length ys = length sched \<and>
           (\<forall>g dl. dict_get dls' g = Some dl \<longrightarrow> dl_ok dl) \<and> same_static dls dls'"
  using assms
proof (induction sched arbitrary: dls its)
  case Nil
  then show ?case by (simp add: iter_inv_def same_static_refl)
next
  case (Cons grp rest)
  from Cons.prems(1) obtain dl where dl: "dict_get dls grp = Some dl"
    and c: "(case dict_get its grp of None \<Rightarrow> DataLoader_len dl | Some bs \<Rightarrow> length bs)
              = count_key grp (grp # rest)"
    unfolding iter_inv_def by fastforce
  from Cons.prems(1) dl have ok: "dl_ok dl" by (auto simp: iter_inv_def)
  show ?case
  proof (cases "dict_get its grp")
    case None
    with c have "length (fst (DataLoader_iter R dl)) = Suc (count_key grp rest)"
      using DataLoader_iter_length [OF ok, of R] by (simp add: count_key_Cons)
    then obtain b bs where bs: "fst (DataLoader_iter R dl) = b # bs"
      by (cases "fst (DataLoader_iter R dl)") auto
    have "batches_ok (dataset dl) (b # bs)"
      using DataLoader_iter_batches_ok [OF ok, of R] bs by simp
    with Cons.prems(2) dl obtain y where y: "emit grp (dataset dl) b = Inr y"
      unfolding emit_total_def batches_ok_Cons by blast
    let ?dls1 = "dict_set dls grp (snd (DataLoader_iter R dl))"
    have st: "same_static dls ?dls1"
      by (rule same_static_set [OF dl]) (rule static_iter)
    have inv': "iter_inv rest ?dls1 (dict_set (its @ [(grp, b # bs)]) grp bs)"
      by (rule iter_inv_step_new [OF Cons.prems(1) dl None bs])
    have tot': "emit_total emit ?dls1"
      by (rule emit_total_static [OF Cons.prems(2) st])
    from Cons.IH [OF inv' tot'] obtain ys dls' where
      r: "iter_loop R emit rest ?dls1 (dict_set (its @ [(grp, b # bs)]) grp bs) = (ys, StopIteration, dls')"
        "length ys = length rest" "\<forall>g dl. dict_get dls' g = Some dl \<longrightarrow> dl_ok dl"
        "same_static ?dls1 dls'"
      by blast
    have "iter_loop R emit (grp # rest) dls its = (y # ys, StopIteration, dls')"
      using iter_loop_step_new [where emit = emit and rest = rest, OF dl None bs y] r(1) by simp
    with r st show ?thesis
      by (auto intro: same_static_trans)
  next
    case (Some bs0)
    with c have "length bs0 = Suc (count_key grp rest)" by (simp add: count_key_Cons)
    then obtain b bs where bs: "bs0 = b # bs" by (cases bs0) auto
    from Cons.prems(1) Some bs dl have "batches_ok (dataset dl) (b # bs)"
      unfolding iter_inv_def by fastforce
    with Cons.prems(2) dl obtain y where y: "emit grp (dataset dl) b = Inr y"
      unfolding emit_total_def batches_ok_Cons by blast
    have its: "dict_get its grp = Some (b # bs)" using Some bs by simp
    have inv': "iter_inv rest dls (dict_set its grp bs)"
      by (rule iter_inv_step_old [OF Cons.prems(1) its])
    from Cons.IH [OF inv' Cons.prems(2)] obtain ys dls' where
      r: "iter_loop R emit rest dls (dict_set its grp bs) = (ys, StopIteration, dls')"
        "length ys = length rest" "\<forall>g dl. dict_get dls' g = Some dl \<longrightarrow> dl_ok dl"
        "same_static dls dls'"
      by blast
    have "iter_loop R emit (grp # rest) dls its = (y # ys, StopIteration, dls')"
      using iter_loop_step_old [where emit = emit and rest = rest and R = R, OF dl its y] r(1) by simp
    with r show ?thesis by auto
  qed
qed

section \<open>Properties of the construction of the loader\<close>

lemma get_data_loader_Inr:
  assumes "get_data_loader R bsize dropl shuf g group_data = Inr (dl, g')"
  shows "dl_ok dl" and "static dl = (group_data, nat bsize, dropl)" and "0 < bsize"
    and "shuf \<Longrightarrow> \<exists>sd. sampler dl = Some (RandomSampler_init R (length group_data) sd)"
    and "\<not> shuf \<Longrightarrow> sampler dl = None"
  using assms
  by (auto simp: get_data_loader_def dl_ok_def static_def sampler_ok_init Let_def
      split: if_splits prod.splits)

lemma init_dataloaders_Inr:
  assumes "init_dataloaders R dat bsize dropl shuf grouped g = Inr (dls, g')"
  shows "map fst dls = map fst grouped"
    and "\<forall>kv \<in> set dls. dl_ok (snd kv)"
    and "map (\<lambda>kv. static (snd kv)) dls = map (\<lambda>kv. (map (\<lambda>i. dat ! i) (snd kv), nat bsize, dropl)) grouped"
    and "\<forall>kv \<in> set dls. shuf \<or> sampler (snd kv) = None"
  using assms
proof (induction grouped arbitrary: g dls)
  case Nil
  { case 1 then show ?case by simp }
  { case 2 then show ?case by simp }
  { case 3 then show ?case by simp }
  { case 4 then show ?case by simp }
next
  case (Cons a grouped)
  obtain grp idxs where a: "a = (grp, idxs)" by (cases a)
  { case 1
    then obtain dl g1 dls1 where
      h: "get_data_loader R bsize dropl shuf g (map (\<lambda>i. dat ! i) idxs) = Inr (dl, g1)"
         "init_dataloaders R dat bsize dropl shuf grouped g1 = Inr (dls1, g')"
         "dls = (grp, dl) # dls1"
      by (auto simp: a split: sum.splits prod.splits)
    with Cons.IH(1) [OF h(2)] show ?case by (simp add: a) }
  { case 2
    then obtain dl g1 dls1 where
      h: "get_data_loader R bsize dropl shuf g (map (\<lambda>i. dat ! i) idxs) = Inr (dl, g1)"
         "init_dataloaders R dat bsize dropl shuf grouped g1 = Inr (dls1, g')"
         "dls = (grp, dl) # dls1"
      by (auto simp: a split: sum.splits prod.splits)
    with Cons.IH(2) [OF h(2)] get_data_loader_Inr(1) [OF h(1)] show ?case by simp }
  { case 3
    then obtain dl g1 dls1 where
      h: "get_data_loader R bsize dropl shuf g (map (\<lambda>i. dat ! i) idxs) = Inr (dl, g1)"
         "init_dataloaders R dat bsize dropl shuf grouped g1 = Inr (dls1, g')"
         "dls = (grp, dl) # dls1"
      by (auto simp: a split: sum.splits prod.splits)
    with Cons.IH(3) [OF h(2)] get_data_loader_Inr(2) [OF h(1)] show ?case by (simp add: a) }
  { case 4
    then obtain dl g1 dls1 where
      h: "get_data_loader R bsize dropl shuf g (map (\<lambda>i. dat ! i) idxs) = Inr (dl, g1)"
         "init_dataloaders R dat bsize dropl shuf grouped g1 = Inr (dls1, g')"
         "dls = (grp, dl) # dls1"
      by (auto simp: a split: sum.splits prod.splits)
    with Cons.IH(4) [OF h(2)] get_data_loader_Inr(5) [OF h(1)] show ?case by auto }
qed

lemma dict_get_dl_ok:
  "\<forall>kv \<in> set dls. P (snd kv) \<Longrightarrow> dict_get dls g = Some dl \<Longrightarrow> P dl"
  by (induction dls) (auto split: if_splits)

lemma schedule_of_Cons:
  "schedule_of ((k, dl) # dls) = replicate (DataLoader_len dl) k @ schedule_of dls"
  by (simp add: schedule_of_def)

lemma count_key_append: "count_key g (a @ b) = count_key g a + count_key g b"
  by (simp add: count_key_def)

lemma count_key_replicate:
  "count_key g (replicate n k) = (if hash_key k = hash_key g then n else 0)"
  by (induction n) (auto simp: count_key_def)

lemma schedule_of_keys:
  "h \<in> set (schedule_of dls) \<Longrightarrow> hash_key h \<in> set (map (\<lambda>kv. hash_key (fst kv)) dls)"
  by (induction dls) (auto simp: schedule_of_def)

lemma count_key_zero: "hash_key g \<notin> hash_key ` set s \<Longrightarrow> count_key g s = 0"
  by (auto simp: count_key_def filter_empty_conv) (metis imageI)

lemma count_key_schedule_of:
  assumes "keys_distinct dls" and "dict_get dls g = Some dl"
  shows "count_key g (schedule_of dls) = DataLoader_len dl"
  using assms
proof (induction dls)
  case Nil
  then show ?case by simp
next
  case (Cons a dls)
  obtain k d where a: "a = (k, d)" by (cases a)
  from Cons.prems(1) have dist: "keys_distinct dls"
    and notin: "hash_key k \<notin> set (map (\<lambda>kv. hash_key (fst kv)) dls)"
    by (simp_all add: keys_distinct_def a)
  show ?case
  proof (cases "hash_key k = hash_key g")
    case True
    with Cons.prems(2) have "d = dl" by (simp add: a)
    moreover have "count_key g (schedule_of dls) = 0"
    proof (rule count_key_zero)
      show "hash_key g \<notin> hash_key ` set (schedule_of dls)"
        using notin True schedule_of_keys [of _ dls] by auto
    qed
    ultimately show ?thesis
      using True by (simp add: a schedule_of_Cons count_key_append count_key_replicate)
  next
    case False
    with Cons.prems(2) have "dict_get dls g = Some dl" by (simp add: a)
    from Cons.IH [OF dist this] False show ?thesis
      by (simp add: a schedule_of_Cons count_key_append count_key_replicate)
  qed
qed

lemma schedule_of_member:
  "h \<in> set (schedule_of dls) \<Longrightarrow> \<exists>dl. dict_get dls h = Some dl"
  using schedule_of_keys [of h dls] dict_get_None_iff [of dls h]
  by (cases "dict_get dls h") auto

lemma length_schedule_of:
  "length (schedule_of dls) = sum_list (map (\<lambda>kv. DataLoader_len (snd kv)) dls)"
  by (induction dls) (auto simp: schedule_of_def)

lemma GroupDataLoader_init_Inr:
  assumes "GroupDataLoader_init R dat gkey bsize dropl shuf sd = Inr self"
  obtains grouped dls g where
    "group_json_objects dat gkey = Inr grouped"
    "init_dataloaders R dat bsize dropl shuf grouped (rng_seed R sd) = Inr (dls, g)"
    "group_dataloaders self = dls"
    "group_batches self = fst (py_shuffle R (schedule_of dls) g)"
    "shuffle self = shuf" "drop_last self = dropl" "batch_size self = bsize" "data self = dat"
  using assms
  by (auto simp: GroupDataLoader_init_def split: sum.splits prod.splits)

lemma loader_ok_init:
  assumes "GroupDataLoader_init R dat gkey bsize dropl shuf sd = Inr self"
  shows "loader_ok self"
proof -
  from assms obtain grouped dls g where
    gr: "group_json_objects dat gkey = Inr grouped"
    and dl: "init_dataloaders R dat bsize dropl shuf grouped (rng_seed R sd) = Inr (dls, g)"
    and f: "group_dataloaders self = dls" "group_batches self = fst (py_shuffle R (schedule_of dls) g)"
    by (rule GroupDataLoader_init_Inr)
  have kd: "keys_distinct dls"
  proof -
    have "map (\<lambda>kv. hash_key (fst kv)) dls = map hash_key (map fst dls)" by simp
    also have "\<dots> = map hash_key (map fst grouped)"
      by (simp only: init_dataloaders_Inr(1) [OF dl])
    also have "\<dots> = map (\<lambda>kv. hash_key (fst kv)) grouped" by simp
    finally show ?thesis
      using group_json_objects_keys [OF gr] by (simp add: keys_distinct_def)
  qed
  have ok: "\<forall>kv \<in> set dls. dl_ok (snd kv)" by (rule init_dataloaders_Inr(2) [OF dl])
  show ?thesis
    unfolding loader_ok_def f
  proof (intro conjI allI impI ballI)
    fix g' d assume "dict_get dls g' = Some d"
    with ok show "dl_ok d" by (rule dict_get_dl_ok)
  next
    fix h assume "h \<in> set (fst (py_shuffle R (schedule_of dls) g))"
    then have "h \<in> set (schedule_of dls)" by (simp add: py_shuffle_set)
    then obtain d where d: "dict_get dls h = Some d" using schedule_of_member by blast
    have "count_key h (fst (py_shuffle R (schedule_of dls) g)) = count_key h (schedule_of dls)"
      by (rule count_key_mset) (rule py_shuffle_mset)
    with count_key_schedule_of [OF kd d] d
    show "\<exists>d. dict_get dls h = Some d \<and>
        DataLoader_len d = count_key h (fst (py_shuffle R (schedule_of dls) g))"
      by simp
  qed
qed

lemma iter_inv_start: "loader_ok self \<Longrightarrow> iter_inv (group_batches self) (group_dataloaders self) []"
  by (simp add: loader_ok_def iter_inv_def)

lemma loader_ok_static:
  assumes "loader_ok self" and "same_static (group_dataloaders self) dls'"
    and "\<forall>g dl. dict_get dls' g = Some dl \<longrightarrow> dl_ok dl"
  shows "loader_ok (self\<lparr>group_dataloaders := dls'\<rparr>)"
  unfolding loader_ok_def
proof (intro conjI allI impI ballI)
  fix g dl assume "dict_get (group_dataloaders (self\<lparr>group_dataloaders := dls'\<rparr>)) g = Some dl"
  with assms(3) show "dl_ok dl" by simp
next
  fix g assume "g \<in> set (group_batches (self\<lparr>group_dataloaders := dls'\<rparr>))"
  then have "g \<in> set (group_batches self)" by simp
  with assms(1) obtain dl where dl: "dict_get (group_dataloaders self) g = Some dl"
    "DataLoader_len dl = count_key g (group_batches self)"
    unfolding loader_ok_def by blast
  from assms(2) dl(1) obtain dl' where "dict_get dls' g = Some dl'" "static dl' = static dl"
    by (auto simp: same_static_def dest!: spec [of _ g])
  with dl(2) DataLoader_len_static [of dl' dl]
  show "\<exists>dl. dict_get (group_dataloaders (self\<lparr>group_dataloaders := dls'\<rparr>)) g = Some dl \<and>
      DataLoader_len dl = count_key g (group_batches (self\<lparr>group_dataloaders := dls'\<rparr>))"
    by simp
qed

lemma pass_full:
  assumes ok: "loader_ok self" and tot: "emit_total emit (group_dataloaders self)"
  obtains ys dls' where
    "iter_loop R emit (group_batches self) (group_dataloaders self) [] = (ys, StopIteration, dls')"
    "length ys = length (group_batches self)"
    "loader_ok (self\<lparr>group_dataloaders := dls'\<rparr>)"
    "emit_total emit dls'"
proof -
  from iter_loop_full [OF iter_inv_start [OF ok] tot, of R] obtain ys dls' where
    r: "iter_loop R emit (group_batches self) (group_dataloaders self) [] = (ys, StopIteration, dls')"
      "length ys = length (group_batches self)"
      "\<forall>g dl. dict_get dls' g = Some dl \<longrightarrow> dl_ok dl"
      "same_static (group_dataloaders self) dls'"
    by blast
  show ?thesis
    by (rule that [OF r(1) r(2) loader_ok_static [OF ok r(4) r(3)] emit_total_static [OF tot r(4)]])
qed

section \<open>The length of the loader\<close>

lemma floor_div_nat: "nat \<lfloor>real n / real b\<rfloor> = n div b"
  by (simp add: floor_divide_of_nat_eq)

lemma ceil_div_nat:
  assumes "0 < b"
  shows "nat \<lceil>real n / real b\<rceil> = (n + b - 1) div b"
proof -
  let ?m = "(n + b - 1) div b"
  have up: "n \<le> ?m * b"
  proof -
    have "n + b - 1 < ?m * b + b"
      using assms dividend_less_div_times [of b "n + b - 1"] by (simp add: mult.commute)
    with assms show ?thesis by linarith
  qed
  have lo: "?m * b < n + b"
  proof -
    have "?m * b \<le> n + b - 1" by (simp add: div_times_less_eq_dividend)
    with assms show ?thesis by linarith
  qed
  have "\<lceil>real n / real b\<rceil> = int ?m"
  proof (rule ceiling_unique)
    have "real (?m * b) < real (n + b)" using lo by (simp only: of_nat_less_iff)
    then have "real ?m * real b - real b < real n" by simp
    then have "(real ?m - 1) * real b < real n" by (simp add: algebra_simps)
    then show "of_int (int ?m) - 1 < real n / real b"
      using assms by (simp add: pos_less_divide_eq)
  next
    have "real n \<le> real (?m * b)" using up by (simp only: of_nat_le_iff)
    then show "real n / real b \<le> of_int (int ?m)"
      using assms by (simp add: pos_divide_le_eq)
  qed
  then show ?thesis by simp
qed

lemma DataLoader_len_floor_ceil:
  assumes "static dl = (ds, b, dropl)" and "0 < b"
  shows "DataLoader_len dl =
     (if dropl then nat \<lfloor>real (length ds) / real b\<rfloor> else nat \<lceil>real (length ds) / real b\<rceil>)"
  using assms by (simp add: DataLoader_len_def static_def floor_div_nat ceil_div_nat Let_def)

lemma iter_keeps_schedule:
  "group_batches (snd (GroupDataLoader_iter R fetch self)) = group_batches self"
  by (simp add: GroupDataLoader_iter_def split: prod.splits)

lemma after_keeps_schedule:
  "group_batches (GroupDataLoader_after R fetch k self) = group_batches self"
  by (induction k arbitrary: self) (simp_all add: iter_keeps_schedule)


text \<open>
  Claim C5. A constructed loader has as many batches as the groups have together: for
  each group, the floor of group size over batch size when drop-last is set and the
  ceiling otherwise. \<^verbatim>\<open>__len__\<close> reads the length of the schedule that the constructor
  stored; no pass changes the schedule, so the length stays what it was at construction.
\<close>

theorem loader_length_law:
  assumes "GroupDataLoader_init R dat key bsize dropl shuf sd = Inr self"
  shows "\<exists>grouped. group_json_objects dat key = Inr grouped \<and>
           GroupDataLoader_len self =
             sum_list (map (\<lambda>(g, idxs).
                 if dropl then nat \<lfloor>real (length idxs) / real_of_int bsize\<rfloor>
                 else nat \<lceil>real (length idxs) / real_of_int bsize\<rceil>) grouped) \<and>
           (\<forall>k. GroupDataLoader_len (GroupDataLoader_after R fetch k self) = GroupDataLoader_len self)"
proof -
  from assms obtain grouped dls g where
    gr: "group_json_objects dat key = Inr grouped"
    and dl: "init_dataloaders R dat bsize dropl shuf grouped (rng_seed R sd) = Inr (dls, g)"
    and f: "group_dataloaders self = dls" "group_batches self = fst (py_shuffle R (schedule_of dls) g)"
    by (rule GroupDataLoader_init_Inr)
  let ?h = "\<lambda>kv. if dropl then nat \<lfloor>real (length (snd kv)) / real_of_int bsize\<rfloor>
                 else nat \<lceil>real (length (snd kv)) / real_of_int bsize\<rceil>"
  have len: "length dls = length grouped"
    using init_dataloaders_Inr(1) [OF dl] by (metis length_map)
  have "map (\<lambda>kv. DataLoader_len (snd kv)) dls = map ?h grouped"
  proof (rule nth_equalityI)
    show "length (map (\<lambda>kv. DataLoader_len (snd kv)) dls) = length (map ?h grouped)"
      using len by simp
  next
    fix i assume "i < length (map (\<lambda>kv. DataLoader_len (snd kv)) dls)"
    then have i: "i < length dls" "i < length grouped" using len by simp_all
    have "map (\<lambda>kv. static (snd kv)) dls ! i
            = map (\<lambda>kv. (map (\<lambda>i. dat ! i) (snd kv), nat bsize, dropl)) grouped ! i"
      by (simp only: init_dataloaders_Inr(3) [OF dl])
    with i have st: "static (snd (dls ! i)) = (map (\<lambda>i. dat ! i) (snd (grouped ! i)), nat bsize, dropl)"
      by simp
    have "dl_ok (snd (dls ! i))"
      using init_dataloaders_Inr(2) [OF dl] i(1) by simp
    with st have pos: "0 < nat bsize" by (simp add: dl_ok_def static_def)
    then have "real (nat bsize) = real_of_int bsize" by simp
    with DataLoader_len_floor_ceil [OF st pos] i
    show "map (\<lambda>kv. DataLoader_len (snd kv)) dls ! i = map ?h grouped ! i"
      by simp
  qed
  then have "length (schedule_of dls) = sum_list (map ?h grouped)"
    by (simp only: length_schedule_of)
  moreover have "map ?h grouped =
      map (\<lambda>(g, idxs). if dropl then nat \<lfloor>real (length idxs) / real_of_int bsize\<rfloor>
                 else nat \<lceil>real (length idxs) / real_of_int bsize\<rceil>) grouped"
    by (induction grouped) auto
  ultimately have "GroupDataLoader_len self =
      sum_list (map (\<lambda>(g, idxs). if dropl then nat \<lfloor>real (length idxs) / real_of_int bsize\<rfloor>
                 else nat \<lceil>real (length idxs) / real_of_int bsize\<rceil>) grouped)"
    by (simp only: GroupDataLoader_len_def f py_shuffle_length)
  moreover have "GroupDataLoader_len (GroupDataLoader_after R fetch k self) = GroupDataLoader_len self" for k
    by (simp add: GroupDataLoader_len_def after_keeps_schedule)
  ultimately show ?thesis using gr by blast
qed

lemma loader_records_groups:
  "group_json_objects loader_records ''pipeline.id'' = Inr [(JStr ''p'', [0, 2, 3]), (JStr ''q'', [1])]"
  by code_simp

lemma loader_records_len:
  "map_sum id GroupDataLoader_len
     (GroupDataLoader_init counter_rng loader_records ''pipeline.id'' 2 False True 1) = Inr 3"
  by code_simp

theorem loader_length_law_witness:
  "map_sum id GroupDataLoader_len
     (GroupDataLoader_init counter_rng loader_records ''pipeline.id'' 2 False True 1) = Inr 3
   \<and> group_json_objects loader_records ''pipeline.id'' = Inr [(JStr ''p'', [0, 2, 3]), (JStr ''q'', [1])]
   \<and> nat \<lceil>real (length [0, 2, 3 :: nat]) / real_of_int 2\<rceil>
       + nat \<lceil>real (length [1 :: nat]) / real_of_int 2\<rceil> = 3"
proof -
  obtain self where s:
    "GroupDataLoader_init counter_rng loader_records ''pipeline.id'' 2 False True 1 = Inr self"
    using loader_records_len
    by (cases "GroupDataLoader_init counter_rng loader_records ''pipeline.id'' 2 False True 1") auto
  have h: "nat \<lceil>(1::real) / 2\<rceil> = 1" "nat \<lceil>(3::real) / 2\<rceil> = 2"
    using ceil_div_nat [of 2 1] ceil_div_nat [of 2 3] by simp_all
  have c: "nat \<lceil>real (length [0, 2, 3 :: nat]) / real_of_int 2\<rceil>
       + nat \<lceil>real (length [1 :: nat]) / real_of_int 2\<rceil> = 3"
    by (simp add: h)
  from loader_length_law [OF s] loader_records_groups loader_records_len c show ?thesis
    by simp
qed

section \<open>Exhausting a loader\<close>

lemma pep479_StopIteration: "pep479 StopIteration = RuntimeError"
  by (simp add: pep479_def)

lemma GroupDataLoader_iter_full:
  assumes ok: "loader_ok self" and tot: "emit_total (emit_group fetch) (group_dataloaders self)"
  obtains ys self' where
    "GroupDataLoader_iter R fetch self = ((ys, RuntimeError), self')"
    "length ys = GroupDataLoader_len self"
    "loader_ok self'" "emit_total (emit_group fetch) (group_dataloaders self')"
    "group_batches self' = group_batches self"
proof -
  from pass_full [OF ok tot, of R] obtain ys dls' where
    r: "iter_loop R (emit_group fetch) (group_batches self) (group_dataloaders self) []
          = (ys, StopIteration, dls')"
      "length ys = length (group_batches self)"
      "loader_ok (self\<lparr>group_dataloaders := dls'\<rparr>)"
      "emit_total (emit_group fetch) dls'"
    by blast
  show ?thesis
  proof (rule that [of ys "self\<lparr>group_dataloaders := dls'\<rparr>"])
    show "GroupDataLoader_iter R fetch self = ((ys, RuntimeError), self\<lparr>group_dataloaders := dls'\<rparr>)"
      by (simp add: GroupDataLoader_iter_def r(1) pep479_StopIteration)
  qed (use r in \<open>simp_all add: GroupDataLoader_len_def\<close>)
qed

lemma GroupDataLoader_after_ok:
  assumes "loader_ok self" and "emit_total (emit_group fetch) (group_dataloaders self)"
  shows "loader_ok (GroupDataLoader_after R fetch k self) \<and>
         emit_total (emit_group fetch) (group_dataloaders (GroupDataLoader_after R fetch k self))"
  using assms
proof (induction k arbitrary: self)
  case 0
  then show ?case by simp
next
  case (Suc k)
  from GroupDataLoader_iter_full [OF Suc.prems, of R] obtain ys self' where
    r: "GroupDataLoader_iter R fetch self = ((ys, RuntimeError), self')"
       "loader_ok self'" "emit_total (emit_group fetch) (group_dataloaders self')"
    by blast
  from Suc.IH [OF r(2) r(3)] r(1) show ?case by simp
qed

lemma RNNDataLoader_iter_full:
  assumes ok: "loader_ok (base self)"
    and tot: "emit_total (emit_rnn (pipeline_structures self) fetch) (group_dataloaders (base self))"
  obtains ys self' where
    "RNNDataLoader_iter R fetch self = ((ys, RuntimeError), self')"
    "length ys = GroupDataLoader_len (base self)"
    "loader_ok (base self')"
    "emit_total (emit_rnn (pipeline_structures self') fetch) (group_dataloaders (base self'))"
    "group_batches (base self') = group_batches (base self)"
proof -
  from pass_full [OF ok tot, of R] obtain ys dls' where
    r: "iter_loop R (emit_rnn (pipeline_structures self) fetch) (group_batches (base self))
          (group_dataloaders (base self)) [] = (ys, StopIteration, dls')"
      "length ys = length (group_batches (base self))"
      "loader_ok ((base self)\<lparr>group_dataloaders := dls'\<rparr>)"
      "emit_total (emit_rnn (pipeline_structures self) fetch) dls'"
    by blast
  show ?thesis
  proof (rule that [of ys "self\<lparr>base := (base self)\<lparr>group_dataloaders := dls'\<rparr>\<rparr>"])
    show "RNNDataLoader_iter R fetch self =
        ((ys, RuntimeError), self\<lparr>base := (base self)\<lparr>group_dataloaders := dls'\<rparr>\<rparr>)"
      by (simp add: RNNDataLoader_iter_def r(1) pep479_StopIteration)
  qed (use r in \<open>simp_all add: GroupDataLoader_len_def\<close>)
qed

lemma RNNDataLoader_after_ok:
  assumes "loader_ok (base self)"
    and "emit_total (emit_rnn (pipeline_structures self) fetch) (group_dataloaders (base self))"
  shows "loader_ok (base (RNNDataLoader_after R fetch k self)) \<and>
         emit_total (emit_rnn (pipeline_structures (RNNDataLoader_after R fetch k self)) fetch)
           (group_dataloaders (base (RNNDataLoader_after R fetch k self))) \<and>
         group_batches (base (RNNDataLoader_after R fetch k self)) = group_batches (base self)"
  using assms
proof (induction k arbitrary: self)
  case 0
  then show ?case by simp
next
  case (Suc k)
  from RNNDataLoader_iter_full [OF Suc.prems, of R] obtain ys self' where
    r: "RNNDataLoader_iter R fetch self = ((ys, RuntimeError), self')"
       "loader_ok (base self')"
       "emit_total (emit_rnn (pipeline_structures self') fetch) (group_dataloaders (base self'))"
       "group_batches (base self') = group_batches (base self)"
    by blast
  from Suc.IH [OF r(2) r(3)] r(1) r(4) show ?case by simp
qed

lemma RNNDataLoader_init_base:
  "RNNDataLoader_init R dat key bsize dropl shuf sd = Inr self \<Longrightarrow>
   GroupDataLoader_init R dat key bsize dropl shuf sd = Inr (base self)"
  by (auto simp: RNNDataLoader_init_def split: sum.splits)

text \<open>
  When every record of the data lets the dataset class build its item (and, for
  \<^verbatim>\<open>GroupDataLoader\<close>, has the key \<^verbatim>\<open>'pipeline'\<close>), every batch of every group of a
  constructed loader is fetched without an exception.
\<close>

lemma fetch_items_ok:
  "\<forall>i \<in> set b. \<exists>x. G i = Inr x \<Longrightarrow> \<exists>xs. fetch_items G b = Inr xs"
  by (induction b) (auto split: sum.splits)

lemma Dataset_getitem_local:
  "i < length ds \<Longrightarrow> Dataset_getitem fk tk ds i = Dataset_getitem fk tk [ds ! i] 0"
  by (simp add: Dataset_getitem_def split: sum.splits)

lemma RNNDataset_getitem_local:
  "i < length ds \<Longrightarrow> RNNDataset_getitem p2e fk tk ds i = RNNDataset_getitem p2e fk tk [ds ! i] 0"
  by (simp add: RNNDataset_getitem_def Dataset_getitem_def split: sum.splits)

lemma Dataset_fetch_ok:
  assumes "\<forall>r \<in> set ds. Dataset_item_ok fk tk r" and "set b \<subseteq> {0..<length ds}"
  shows "\<exists>v. Dataset_fetch fk tk ds b = Inr v"
proof -
  have "\<forall>i \<in> set b. \<exists>x. Dataset_getitem fk tk ds i = Inr x"
  proof
    fix i assume "i \<in> set b"
    with assms(2) have i: "i < length ds" by auto
    with assms(1) have "Dataset_item_ok fk tk (ds ! i)" by simp
    then show "\<exists>x. Dataset_getitem fk tk ds i = Inr x"
      by (auto simp: Dataset_getitem_local [OF i] Dataset_item_ok_def split: sum.splits)
  qed
  from fetch_items_ok [OF this] show ?thesis
    by (auto simp: Dataset_fetch_def)
qed

lemma RNNDataset_fetch_ok:
  assumes "\<forall>r \<in> set ds. RNNDataset_item_ok p2e fk tk r" and "set b \<subseteq> {0..<length ds}"
  shows "\<exists>v. RNNDataset_fetch p2e fk tk ds b = Inr v"
proof -
  have "\<forall>i \<in> set b. \<exists>x. RNNDataset_getitem p2e fk tk ds i = Inr x"
  proof
    fix i assume "i \<in> set b"
    with assms(2) have i: "i < length ds" by auto
    with assms(1) have "RNNDataset_item_ok p2e fk tk (ds ! i)" by simp
    then show "\<exists>x. RNNDataset_getitem p2e fk tk ds i = Inr x"
      by (auto simp: RNNDataset_getitem_local [OF i] RNNDataset_item_ok_def split: sum.splits)
  qed
  from fetch_items_ok [OF this] show ?thesis
    by (auto simp: RNNDataset_fetch_def)
qed

lemma dict_get_nth:
  "dict_get d g = Some v \<Longrightarrow> \<exists>i < length d. snd (d ! i) = v \<and> hash_key (fst (d ! i)) = hash_key g"
  by (metis dict_get_in fst_conv in_set_conv_nth snd_conv)

lemma init_dataset_subset:
  assumes init: "GroupDataLoader_init R dat key bsize dropl shuf sd = Inr self"
    and g: "dict_get (group_dataloaders self) g = Some dl"
  shows "set (dataset dl) \<subseteq> set dat"
proof -
  from init obtain grouped dls st where
    gr: "group_json_objects dat key = Inr grouped"
    and dl: "init_dataloaders R dat bsize dropl shuf grouped (rng_seed R sd) = Inr (dls, st)"
    and f: "group_dataloaders self = dls"
    by (rule GroupDataLoader_init_Inr)
  have len: "length dls = length grouped"
    using init_dataloaders_Inr(1) [OF dl] by (metis length_map)
  from g f dict_get_nth [of dls g dl] obtain i where i: "i < length dls" "snd (dls ! i) = dl"
    by auto
  have "map (\<lambda>kv. static (snd kv)) dls ! i
          = map (\<lambda>kv. (map (\<lambda>i. dat ! i) (snd kv), nat bsize, dropl)) grouped ! i"
    by (simp only: init_dataloaders_Inr(3) [OF dl])
  with i len have ds: "dataset dl = map (\<lambda>i. dat ! i) (snd (grouped ! i))"
    by (simp add: static_def)
  have "(fst (grouped ! i), snd (grouped ! i)) \<in> set grouped"
    using i(1) len by simp
  from group_json_objects_entry [OF gr this]
  have "set (snd (grouped ! i)) \<subseteq> {0..<length dat}" by auto
  with ds show ?thesis by auto
qed

lemma emit_group_total:
  assumes init: "GroupDataLoader_init R dat key bsize dropl shuf sd = Inr self"
    and recs: "\<forall>r \<in> set dat. Dataset_item_ok fk tk r \<and> has_pipeline r"
  shows "emit_total (emit_group (Dataset_fetch fk tk)) (group_dataloaders self)"
  unfolding emit_total_def
proof (intro allI impI)
  fix g dl b
  assume g: "dict_get (group_dataloaders self) g = Some dl"
    and b: "b \<noteq> []" "set b \<subseteq> {0..<length (dataset dl)}"
  have sub: "set (dataset dl) \<subseteq> set dat" by (rule init_dataset_subset [OF init g])
  with recs have "\<forall>r \<in> set (dataset dl). Dataset_item_ok fk tk r" by auto
  from Dataset_fetch_ok [OF this b(2)] obtain x y where
    f: "Dataset_fetch fk tk (dataset dl) b = Inr (x, y)" by auto
  from b obtain r rest where ds: "dataset dl = r # rest" by (cases "dataset dl") auto
  with sub recs have "has_pipeline r" by auto
  then obtain p where "subscript r ''pipeline'' = Inr p"
    by (auto simp: has_pipeline_def split: sum.splits)
  with f ds show "\<exists>y. emit_group (Dataset_fetch fk tk) g (dataset dl) b = Inr y"
    by (simp add: emit_group_def)
qed

lemma structures_loop_keys:
  "structures_loop dat grouped = Inr sts \<Longrightarrow> map fst sts = map fst grouped"
  by (induction grouped arbitrary: sts) (auto split: sum.splits)

lemma dict_get_same_keys:
  assumes "map fst d = map fst d'" and "dict_get d g = Some v"
  shows "\<exists>v'. dict_get d' g = Some v'"
proof -
  have "map (\<lambda>kv. hash_key (fst kv)) d = map hash_key (map fst d)" by simp
  also have "\<dots> = map hash_key (map fst d')" by (simp only: assms(1))
  also have "\<dots> = map (\<lambda>kv. hash_key (fst kv)) d'" by simp
  finally have "dict_get d' g = None \<longleftrightarrow> dict_get d g = None"
    by (simp only: dict_get_None_iff)
  with assms(2) show ?thesis by (cases "dict_get d' g") auto
qed

lemma emit_rnn_total:
  assumes init: "RNNDataLoader_init R dat key bsize dropl shuf sd = Inr rself"
    and recs: "\<forall>r \<in> set dat. RNNDataset_item_ok p2e fk tk r"
  shows "emit_total (emit_rnn (pipeline_structures rself) (RNNDataset_fetch p2e fk tk))
           (group_dataloaders (base rself))"
  unfolding emit_total_def
proof (intro allI impI)
  fix g dl b
  assume g: "dict_get (group_dataloaders (base rself)) g = Some dl"
    and b: "b \<noteq> []" "set b \<subseteq> {0..<length (dataset dl)}"
  have binit: "GroupDataLoader_init R dat key bsize dropl shuf sd = Inr (base rself)"
    by (rule RNNDataLoader_init_base [OF init])
  from init have "\<exists>grouped sts. group_json_objects dat key = Inr grouped \<and>
      structures_loop dat grouped = Inr sts \<and> pipeline_structures rself = sts"
    by (auto simp: RNNDataLoader_init_def split: sum.splits)
  then obtain grouped where
    gr: "group_json_objects dat key = Inr grouped"
    and sl: "structures_loop dat grouped = Inr (pipeline_structures rself)"
    by auto
  from binit obtain grouped' dls st where
    gr': "group_json_objects dat key = Inr grouped'"
    and dl: "init_dataloaders R dat bsize dropl shuf grouped' (rng_seed R sd) = Inr (dls, st)"
    and f: "group_dataloaders (base rself) = dls"
    by (rule GroupDataLoader_init_Inr)
  from gr gr' have "grouped' = grouped" by simp
  with init_dataloaders_Inr(1) [OF dl] structures_loop_keys [OF sl] f
  have "map fst (group_dataloaders (base rself)) = map fst (pipeline_structures rself)" by simp
  from dict_get_same_keys [OF this g] obtain st' where
    st: "dict_get (pipeline_structures rself) g = Some st'" by blast
  have sub: "set (dataset dl) \<subseteq> set dat" by (rule init_dataset_subset [OF binit g])
  with recs have "\<forall>r \<in> set (dataset dl). RNNDataset_item_ok p2e fk tk r" by auto
  from RNNDataset_fetch_ok [OF this b(2)] obtain p x y where
    "RNNDataset_fetch p2e fk tk (dataset dl) b = Inr (p, x, y)" by auto
  with st show "\<exists>y. emit_rnn (pipeline_structures rself) (RNNDataset_fetch p2e fk tk) g (dataset dl) b = Inr y"
    by (simp add: emit_rnn_def)
qed

text \<open>
  Claim C9. Take a loader as the constructor returns it, after any number \<open>k\<close> of full
  passes, and let every batch of every group be fetched without an exception. Then the
  generator body of \<^verbatim>\<open>_iter\<close> yields exactly \<open>len(loader)\<close> batches and ends in the
  \<^verbatim>\<open>raise StopIteration()\<close> that follows its loop, and the caller, after these batches,
  receives RuntimeError (PEP 479). This holds for \<^verbatim>\<open>GroupDataLoader\<close> and for
  \<^verbatim>\<open>RNNDataLoader\<close>, whether or not a batch is scheduled.
\<close>

theorem exhausted_loader_raises_RuntimeError:
  "(GroupDataLoader_init R dat key bsize dropl shuf sd = Inr self \<longrightarrow>
      emit_total (emit_group fetch) (group_dataloaders self) \<longrightarrow>
      (\<exists>ys dls.
         iter_loop R (emit_group fetch)
           (group_batches (GroupDataLoader_after R fetch k self))
           (group_dataloaders (GroupDataLoader_after R fetch k self)) [] = (ys, StopIteration, dls) \<and>
         fst (GroupDataLoader_iter R fetch (GroupDataLoader_after R fetch k self)) = (ys, RuntimeError) \<and>
         length ys = GroupDataLoader_len self))
   \<and> (RNNDataLoader_init R dat key bsize dropl shuf sd = Inr rself \<longrightarrow>
      emit_total (emit_rnn (pipeline_structures rself) rfetch) (group_dataloaders (base rself)) \<longrightarrow>
      (\<exists>ys dls.
         iter_loop R (emit_rnn (pipeline_structures (RNNDataLoader_after R rfetch k rself)) rfetch)
           (group_batches (base (RNNDataLoader_after R rfetch k rself)))
           (group_dataloaders (base (RNNDataLoader_after R rfetch k rself))) [] = (ys, StopIteration, dls) \<and>
         fst (RNNDataLoader_iter R rfetch (RNNDataLoader_after R rfetch k rself)) = (ys, RuntimeError) \<and>
         length ys = GroupDataLoader_len (base rself)))"
proof (intro conjI impI)
  assume init: "GroupDataLoader_init R dat key bsize dropl shuf sd = Inr self"
    and tot: "emit_total (emit_group fetch) (group_dataloaders self)"
  let ?l = "GroupDataLoader_after R fetch k self"
  from GroupDataLoader_after_ok [OF loader_ok_init [OF init] tot, of R k]
  have ok: "loader_ok ?l" and tot': "emit_total (emit_group fetch) (group_dataloaders ?l)"
    by simp_all
  from pass_full [OF ok tot', of R] obtain ys dls' where
    r: "iter_loop R (emit_group fetch) (group_batches ?l) (group_dataloaders ?l) [] = (ys, StopIteration, dls')"
      "length ys = length (group_batches ?l)"
    by blast
  have "fst (GroupDataLoader_iter R fetch ?l) = (ys, RuntimeError)"
    by (simp add: GroupDataLoader_iter_def r(1) pep479_StopIteration)
  moreover have "length ys = GroupDataLoader_len self"
    using r(2) by (simp add: GroupDataLoader_len_def after_keeps_schedule)
  ultimately show "\<exists>ys dls.
         iter_loop R (emit_group fetch) (group_batches ?l) (group_dataloaders ?l) [] = (ys, StopIteration, dls) \<and>
         fst (GroupDataLoader_iter R fetch ?l) = (ys, RuntimeError) \<and>
         length ys = GroupDataLoader_len self"
    using r(1) by blast
next
  assume init: "RNNDataLoader_init R dat key bsize dropl shuf sd = Inr rself"
    and tot: "emit_total (emit_rnn (pipeline_structures rself) rfetch) (group_dataloaders (base rself))"
  let ?l = "RNNDataLoader_after R rfetch k rself"
  have ok0: "loader_ok (base rself)"
    by (rule loader_ok_init [OF RNNDataLoader_init_base [OF init]])
  from RNNDataLoader_after_ok [OF ok0 tot, of R k]
  have ok: "loader_ok (base ?l)"
    and tot': "emit_total (emit_rnn (pipeline_structures ?l) rfetch) (group_dataloaders (base ?l))"
    and sch: "group_batches (base ?l) = group_batches (base rself)"
    by simp_all
  from pass_full [OF ok tot', of R] obtain ys dls' where
    r: "iter_loop R (emit_rnn (pipeline_structures ?l) rfetch) (group_batches (base ?l))
          (group_dataloaders (base ?l)) [] = (ys, StopIteration, dls')"
      "length ys = length (group_batches (base ?l))"
    by blast
  have "fst (RNNDataLoader_iter R rfetch ?l) = (ys, RuntimeError)"
    by (simp add: RNNDataLoader_iter_def r(1) pep479_StopIteration)
  moreover have "length ys = GroupDataLoader_len (base rself)"
    using r(2) sch by (simp add: GroupDataLoader_len_def)
  ultimately show "\<exists>ys dls.
         iter_loop R (emit_rnn (pipeline_structures ?l) rfetch) (group_batches (base ?l))
           (group_dataloaders (base ?l)) [] = (ys, StopIteration, dls) \<and>
         fst (RNNDataLoader_iter R rfetch ?l) = (ys, RuntimeError) \<and>
         length ys = GroupDataLoader_len (base rself)"
    using r(1) by blast
qed

lemma loader_records_init:
  "\<not> isl (GroupDataLoader_init counter_rng loader_records ''pipeline.id'' 2 False True 1)"
  by code_simp

lemma rnn_records_init:
  "\<not> isl (RNNDataLoader_init counter_rng rnn_records ''pipeline_structure'' 1 False True 7)"
  by code_simp

lemma loader_records_ok:
  "list_all (\<lambda>r. Dataset_item_ok ''metafeatures'' ''target'' r \<and> has_pipeline r) loader_records"
  by code_simp

lemma rnn_records_ok:
  "list_all (RNNDataset_item_ok rnn_encoding ''metafeatures'' ''target'') rnn_records"
  by code_simp

lemma loader_records_pass:
  "map_sum id (\<lambda>l. (length (fst (fst (GroupDataLoader_iter counter_rng
        (Dataset_fetch ''metafeatures'' ''target'') l))),
      snd (fst (GroupDataLoader_iter counter_rng (Dataset_fetch ''metafeatures'' ''target'') l)),
      GroupDataLoader_len l))
     (GroupDataLoader_init counter_rng loader_records ''pipeline.id'' 2 False True 1)
   = Inr (3, RuntimeError, 3)"
  by code_simp

lemma rnn_records_pass:
  "map_sum id (\<lambda>l. (length (fst (fst (RNNDataLoader_iter counter_rng
        (RNNDataset_fetch rnn_encoding ''metafeatures'' ''target'') l))),
      snd (fst (RNNDataLoader_iter counter_rng
        (RNNDataset_fetch rnn_encoding ''metafeatures'' ''target'') l)),
      GroupDataLoader_len (base l)))
     (RNNDataLoader_init counter_rng rnn_records ''pipeline_structure'' 1 False True 7)
   = Inr (3, RuntimeError, 3)"
  by code_simp

theorem exhausted_loader_raises_RuntimeError_witness:
  "map_sum id (\<lambda>l. (length (fst (fst (GroupDataLoader_iter counter_rng
        (Dataset_fetch ''metafeatures'' ''target'') l))),
      snd (fst (GroupDataLoader_iter counter_rng (Dataset_fetch ''metafeatures'' ''target'') l)),
      GroupDataLoader_len l))
     (GroupDataLoader_init counter_rng loader_records ''pipeline.id'' 2 False True 1)
   = Inr (3, RuntimeError, 3)
   \<and> map_sum id (\<lambda>l. (length (fst (fst (RNNDataLoader_iter counter_rng
        (RNNDataset_fetch rnn_encoding ''metafeatures'' ''target'') l))),
      snd (fst (RNNDataLoader_iter counter_rng
        (RNNDataset_fetch rnn_encoding ''metafeatures'' ''target'') l)),
      GroupDataLoader_len (base l)))
     (RNNDataLoader_init counter_rng rnn_records ''pipeline_structure'' 1 False True 7)
   = Inr (3, RuntimeError, 3)"
proof -
  obtain self where s:
    "GroupDataLoader_init counter_rng loader_records ''pipeline.id'' 2 False True 1 = Inr self"
    using loader_records_init
    by (cases "GroupDataLoader_init counter_rng loader_records ''pipeline.id'' 2 False True 1") auto
  obtain rself where r:
    "RNNDataLoader_init counter_rng rnn_records ''pipeline_structure'' 1 False True 7 = Inr rself"
    using rnn_records_init
    by (cases "RNNDataLoader_init counter_rng rnn_records ''pipeline_structure'' 1 False True 7") auto
  have tot: "emit_total (emit_group (Dataset_fetch ''metafeatures'' ''target'')) (group_dataloaders self)"
    by (rule emit_group_total [OF s]) (use loader_records_ok in \<open>simp add: list_all_iff\<close>)
  have rtot: "emit_total (emit_rnn (pipeline_structures rself)
        (RNNDataset_fetch rnn_encoding ''metafeatures'' ''target'')) (group_dataloaders (base rself))"
    by (rule emit_rnn_total [OF r]) (use rnn_records_ok in \<open>simp add: list_all_iff\<close>)
  from exhausted_loader_raises_RuntimeError
    [of counter_rng loader_records "''pipeline.id''" 2 False True 1 self
        "Dataset_fetch ''metafeatures'' ''target''" 0]
    exhausted_loader_raises_RuntimeError
    [where R = counter_rng and dat = rnn_records and key = "''pipeline_structure''"
       and bsize = 1 and dropl = False and shuf = True and sd = 7 and rself = rself
       and rfetch = "RNNDataset_fetch rnn_encoding ''metafeatures'' ''target''" and k = 0]
    s tot r rtot loader_records_pass rnn_records_pass
  show ?thesis by simp
qed

section \<open>Two passes over one loader\<close>

lemma iter_loop_unshuffled:
  assumes "\<forall>kv \<in> set dls. sampler (snd kv) = None"
  shows "iter_loop R emit sched dls its = (ys, e, d) \<Longrightarrow> d = dls"
proof (induction sched arbitrary: its ys e d)
  case Nil
  then show ?case by simp
next
  case (Cons grp rest)
  show ?case
  proof (cases "dict_get dls grp")
    case None
    with Cons.prems show ?thesis by simp
  next
    case (Some dl)
    from assms Some have "sampler dl = None" by (rule dict_get_dl_ok)
    then have it: "DataLoader_iter R dl =
        (batch_loop (dl_batch_size dl) (dl_drop_last dl) [] [0..<length (dataset dl)], dl)"
      by (rule DataLoader_iter_None)
    have same: "dict_set dls grp dl = dls" by (rule dict_set_same [OF Some])
    show ?thesis
      using Cons.prems Some it same
      by (auto simp: Let_def dest: Cons.IH
          split: option.splits list.splits sum.splits prod.splits)
  qed
qed

lemma GroupDataLoader_init_unshuffled:
  assumes "GroupDataLoader_init R dat key bsize dropl False sd = Inr self"
  shows "\<forall>kv \<in> set (group_dataloaders self). sampler (snd kv) = None"
proof -
  from assms obtain grouped dls g where
    dl: "init_dataloaders R dat bsize dropl False grouped (rng_seed R sd) = Inr (dls, g)"
    and f: "group_dataloaders self = dls"
    by (rule GroupDataLoader_init_Inr)
  from init_dataloaders_Inr(4) [OF dl] f show ?thesis by simp
qed

lemma iter_loop_labels:
  assumes "\<And>g ds b y. emit g ds b = Inr y \<Longrightarrow> label y = g"
  shows "iter_loop R emit sched dls its = (ys, e, d) \<Longrightarrow> map label ys = take (length ys) sched"
proof (induction sched arbitrary: dls its ys e d)
  case Nil
  then show ?case by simp
next
  case (Cons grp rest)
  show ?case
    using Cons.prems assms
    by (auto simp: Let_def dest: Cons.IH
        split: option.splits list.splits sum.splits prod.splits)
qed

lemma emit_group_label: "emit_group fetch g ds b = Inr y \<Longrightarrow> fst (fst y) = g"
  by (auto simp: emit_group_def split: sum.splits prod.splits list.splits)

lemma GroupDataLoader_iter_unshuffled:
  assumes "GroupDataLoader_init R dat key bsize dropl False sd = Inr self"
  shows "snd (GroupDataLoader_iter R fetch self) = self"
proof -
  obtain ys e d where r:
    "iter_loop R (emit_group fetch) (group_batches self) (group_dataloaders self) [] = (ys, e, d)"
    by (cases "iter_loop R (emit_group fetch) (group_batches self) (group_dataloaders self) []")
  from iter_loop_unshuffled [OF GroupDataLoader_init_unshuffled [OF assms] r]
  have "d = group_dataloaders self" .
  with r show ?thesis by (simp add: GroupDataLoader_iter_def)
qed

lemma GroupDataLoader_after_unshuffled:
  assumes "GroupDataLoader_init R dat key bsize dropl False sd = Inr self"
  shows "GroupDataLoader_after R fetch k self = self"
  by (induction k) (simp_all add: GroupDataLoader_iter_unshuffled [OF assms])

lemma GroupDataLoader_iter_labels:
  "map (\<lambda>y. fst (fst y)) (fst (fst (GroupDataLoader_iter R fetch self)))
     = take (length (fst (fst (GroupDataLoader_iter R fetch self)))) (group_batches self)"
proof -
  obtain ys e d where r:
    "iter_loop R (emit_group fetch) (group_batches self) (group_dataloaders self) [] = (ys, e, d)"
    by (cases "iter_loop R (emit_group fetch) (group_batches self) (group_dataloaders self) []")
  have "map (\<lambda>y. fst (fst y)) ys = take (length ys) (group_batches self)"
    by (rule iter_loop_labels [OF _ r]) (rule emit_group_label)
  with r show ?thesis by (simp add: GroupDataLoader_iter_def)
qed

text \<open>
  Claim C2, as amended. The claim says that two full passes over one constructed loader
  yield identical sequences. With shuffling enabled they need not: every pass asks each
  group's sampler for a new iteration, and \<^verbatim>\<open>RandomSampler.__iter__\<close> shuffles its list
  again, with the generator state the pass before left, see
  \<open>two_passes_differ_counterexample\<close>. What holds for every input, seed and generator: in
  every pass (the first, and the one after any number \<open>k\<close> of passes) the labels of the
  batches yielded follow the schedule that the constructor fixed; and with shuffling
  disabled a pass leaves the loader as it was, so every later pass yields, and ends,
  exactly as the first.
\<close>

theorem passes_same_schedule_and_same_batches_unshuffled:
  assumes "GroupDataLoader_init R dat key bsize dropl shuf sd = Inr self"
  shows "map (\<lambda>y. fst (fst y))
           (fst (fst (GroupDataLoader_iter R fetch (GroupDataLoader_after R fetch k self))))
         = take (length (fst (fst (GroupDataLoader_iter R fetch (GroupDataLoader_after R fetch k self)))))
             (group_batches self)
       \<and> (\<not> shuf \<longrightarrow>
            GroupDataLoader_after R fetch k self = self \<and>
            fst (GroupDataLoader_iter R fetch (GroupDataLoader_after R fetch k self))
              = fst (GroupDataLoader_iter R fetch self))"
proof (intro conjI impI)
  show "map (\<lambda>y. fst (fst y))
           (fst (fst (GroupDataLoader_iter R fetch (GroupDataLoader_after R fetch k self))))
         = take (length (fst (fst (GroupDataLoader_iter R fetch (GroupDataLoader_after R fetch k self)))))
             (group_batches self)"
    using GroupDataLoader_iter_labels [of R fetch "GroupDataLoader_after R fetch k self"]
    by (simp add: after_keeps_schedule)
next
  assume "\<not> shuf"
  with assms have init: "GroupDataLoader_init R dat key bsize dropl False sd = Inr self" by simp
  show "GroupDataLoader_after R fetch k self = self"
    by (rule GroupDataLoader_after_unshuffled [OF init])
  then show "fst (GroupDataLoader_iter R fetch (GroupDataLoader_after R fetch k self))
              = fst (GroupDataLoader_iter R fetch self)"
    by simp
qed

text \<open>
  The loader over the four records of \<open>loader_records\<close>, grouped by
  \<^verbatim>\<open>'pipeline.id'\<close>, batch size 2, shuffling enabled, seed 1, with the generator
  \<open>counter_rng\<close>. The schedule is \<^verbatim>\<open>p, q, p\<close> in both passes. In the first pass the
  sampler of group \<^verbatim>\<open>p\<close> turns \<^verbatim>\<open>[0, 1, 2]\<close> into \<^verbatim>\<open>[2, 0, 1]\<close>; in the second
  pass it shuffles \<^verbatim>\<open>[2, 0, 1]\<close> again, into \<^verbatim>\<open>[0, 1, 2]\<close>. The first batch holds the
  features \<^verbatim>\<open>[13], [10]\<close> in the first pass and \<^verbatim>\<open>[10], [12]\<close> in the second.
\<close>

theorem two_passes_differ_counterexample:
  "map_sum id (\<lambda>l. fst (GroupDataLoader_iter counter_rng (Dataset_fetch ''metafeatures'' ''target'') l))
     (GroupDataLoader_init counter_rng loader_records ''pipeline.id'' 2 False True 1)
   = Inr ([((JStr ''p'', JObj [(''id'', JStr ''p'')], [JArr [JInt 13], JArr [JInt 10]]), [JInt 1, JInt 0]),
           ((JStr ''q'', JObj [(''id'', JStr ''q'')], [JArr [JInt 11]]), [JInt 1]),
           ((JStr ''p'', JObj [(''id'', JStr ''p'')], [JArr [JInt 12]]), [JInt 0])], RuntimeError)
   \<and> map_sum id (\<lambda>l. fst (GroupDataLoader_iter counter_rng (Dataset_fetch ''metafeatures'' ''target'')
        (snd (GroupDataLoader_iter counter_rng (Dataset_fetch ''metafeatures'' ''target'') l))))
     (GroupDataLoader_init counter_rng loader_records ''pipeline.id'' 2 False True 1)
   = Inr ([((JStr ''p'', JObj [(''id'', JStr ''p'')], [JArr [JInt 10], JArr [JInt 12]]), [JInt 0, JInt 0]),
           ((JStr ''q'', JObj [(''id'', JStr ''q'')], [JArr [JInt 11]]), [JInt 1]),
           ((JStr ''p'', JObj [(''id'', JStr ''p'')], [JArr [JInt 13]]), [JInt 1])], RuntimeError)"
  by code_simp

lemma loader_records_unshuffled_init:
  "\<not> isl (GroupDataLoader_init counter_rng loader_records ''pipeline.id'' 2 False False 1)"
  by code_simp

lemma loader_records_unshuffled_passes:
  "map_sum id (\<lambda>l. fst (GroupDataLoader_iter counter_rng (Dataset_fetch ''metafeatures'' ''target'')
        (snd (GroupDataLoader_iter counter_rng (Dataset_fetch ''metafeatures'' ''target'') l))))
     (GroupDataLoader_init counter_rng loader_records ''pipeline.id'' 2 False False 1)
   = Inr ([((JStr ''q'', JObj [(''id'', JStr ''q'')], [JArr [JInt 11]]), [JInt 1]),
           ((JStr ''p'', JObj [(''id'', JStr ''p'')], [JArr [JInt 10], JArr [JInt 12]]), [JInt 0, JInt 0]),
           ((JStr ''p'', JObj [(''id'', JStr ''p'')], [JArr [JInt 13]]), [JInt 1])], RuntimeError)"
  "map_sum id (\<lambda>l. fst (GroupDataLoader_iter counter_rng (Dataset_fetch ''metafeatures'' ''target'') l))
     (GroupDataLoader_init counter_rng loader_records ''pipeline.id'' 2 False False 1)
   = Inr ([((JStr ''q'', JObj [(''id'', JStr ''q'')], [JArr [JInt 11]]), [JInt 1]),
           ((JStr ''p'', JObj [(''id'', JStr ''p'')], [JArr [JInt 10], JArr [JInt 12]]), [JInt 0, JInt 0]),
           ((JStr ''p'', JObj [(''id'', JStr ''p'')], [JArr [JInt 13]]), [JInt 1])], RuntimeError)"
  by code_simp+

theorem passes_same_schedule_and_same_batches_unshuffled_witness:
  "map_sum id (\<lambda>l. fst (GroupDataLoader_iter counter_rng (Dataset_fetch ''metafeatures'' ''target'')
        (snd (GroupDataLoader_iter counter_rng (Dataset_fetch ''metafeatures'' ''target'') l))))
     (GroupDataLoader_init counter_rng loader_records ''pipeline.id'' 2 False False 1)
   = map_sum id (\<lambda>l. fst (GroupDataLoader_iter counter_rng (Dataset_fetch ''metafeatures'' ''target'') l))
     (GroupDataLoader_init counter_rng loader_records ''pipeline.id'' 2 False False 1)
   \<and> map_sum id (\<lambda>l. fst (GroupDataLoader_iter counter_rng (Dataset_fetch ''metafeatures'' ''target'') l))
     (GroupDataLoader_init counter_rng loader_records ''pipeline.id'' 2 False False 1)
   = Inr ([((JStr ''q'', JObj [(''id'', JStr ''q'')], [JArr [JInt 11]]), [JInt 1]),
           ((JStr ''p'', JObj [(''id'', JStr ''p'')], [JArr [JInt 10], JArr [JInt 12]]), [JInt 0, JInt 0]),
           ((JStr ''p'', JObj [(''id'', JStr ''p'')], [JArr [JInt 13]]), [JInt 1])], RuntimeError)"
proof -
  obtain self where s:
    "GroupDataLoader_init counter_rng loader_records ''pipeline.id'' 2 False False 1 = Inr self"
    using loader_records_unshuffled_init
    by (cases "GroupDataLoader_init counter_rng loader_records ''pipeline.id'' 2 False False 1") auto
  from passes_same_schedule_and_same_batches_unshuffled
    [OF s, of "Dataset_fetch ''metafeatures'' ''target''" 1]
    loader_records_unshuffled_passes
  show ?thesis by simp
qed

end
